theory Spec2Isabelle
  imports Complex_Main
begin

section \<open>Completions of JavaScript calls\<close>

text \<open>
  A call either returns a value or throws. The thrown values that matter to main.js are
  the SyntaxError of an invalid selector, the TypeError of an unsupported call and the
  RangeError of an exhausted call stack.
\<close>

datatype exn = SyntaxError | TypeError | RangeError | OtherError string

datatype 'a completion = Returns 'a | Throws exn

section \<open>The host's timers (setTimeout, clearTimeout)\<close>

text \<open>
  Time and delays are natural numbers of milliseconds. A timer holds its handle, the time
  at which it becomes due and what it runs (the closure, by its captured values). The
  host runs a timer no earlier than it is due; of several due timers the one due first
  runs first, the older one on a tie.
\<close>

record 'k timer =
  handle :: nat
  due :: nat
  callback :: 'k

record 'k runtime =
  clock :: nat
  next_handle :: nat
  pending :: "'k timer list"

definition runtime_init :: "'k runtime" where
  "runtime_init = \<lparr>clock = 0, next_handle = 1, pending = []\<rparr>"

definition setTimeout :: "'k \<Rightarrow> nat \<Rightarrow> 'k runtime \<Rightarrow> nat \<times> 'k runtime" where
  "setTimeout cb delay rt =
     (next_handle rt,
      rt\<lparr>next_handle := Suc (next_handle rt),
         pending := pending rt @
           [\<lparr>handle = next_handle rt, due = clock rt + delay, callback = cb\<rparr>]\<rparr>)"

text \<open>\<open>clearTimeout(undefined)\<close> and the handle of a timer that already ran do nothing.\<close>

definition clearTimeout :: "nat option \<Rightarrow> 'k runtime \<Rightarrow> 'k runtime" where
  "clearTimeout h rt =
     (case h of
        None \<Rightarrow> rt
      | Some i \<Rightarrow> rt\<lparr>pending := filter (\<lambda>t. handle t \<noteq> i) (pending rt)\<rparr>)"

fun earliest :: "'k timer list \<Rightarrow> 'k timer option" where
  "earliest [] = None"
| "earliest (t # ts) =
     (case earliest ts of
        None \<Rightarrow> Some t
      | Some u \<Rightarrow> if due u < due t then Some u else Some t)"

definition next_due :: "nat \<Rightarrow> 'k runtime \<Rightarrow> 'k timer option" where
  "next_due now rt = earliest (filter (\<lambda>t. due t \<le> now) (pending rt))"

text \<open>The timer that runs leaves the queue, and the clock stands at its due time.\<close>

definition take_timer :: "'k timer \<Rightarrow> 'k runtime \<Rightarrow> 'k runtime" where
  "take_timer tm rt =
     rt\<lparr>clock := max (clock rt) (due tm),
        pending := filter (\<lambda>t. handle t \<noteq> handle tm) (pending rt)\<rparr>"

definition tick :: "nat \<Rightarrow> 'k runtime \<Rightarrow> 'k runtime" where
  "tick now rt = rt\<lparr>clock := max (clock rt) now\<rparr>"

lemma earliest_mem: "earliest ts = Some tm \<Longrightarrow> tm \<in> set ts"
  by (induction ts arbitrary: tm) (auto split: option.splits if_splits)

lemma next_due_mem: "next_due now rt = Some tm \<Longrightarrow> tm \<in> set (pending rt)"
  unfolding next_due_def using earliest_mem by fastforce

lemma filter_handle_shorter:
  "tm \<in> set ts \<Longrightarrow> length (filter (\<lambda>t. handle t \<noteq> handle tm) ts) < length ts"
  by (rule length_filter_less) simp_all

lemma take_timer_shorter:
  "next_due now rt = Some tm \<Longrightarrow> length (pending (take_timer tm rt)) < length (pending rt)"
  by (simp add: take_timer_def filter_handle_shorter next_due_mem)

lemma clearTimeout_length: "length (pending (clearTimeout h rt)) \<le> length (pending rt)"
  by (cases h) (simp_all add: clearTimeout_def)

section \<open>debounce (main.js, lines 2 to 12)\<close>

text \<open>
  The closure of \<open>debounce(func, wait)\<close> owns the variable \<open>timeout\<close>. A pending timer
  stands for the arrow function \<open>later\<close> and carries the \<open>args\<close> it captured. The calls
  of \<open>func\<close> are recorded with the time at which they happen.
\<close>

record 'a debounced =
  d_rt :: "'a runtime"
  timeout :: "nat option"
  d_calls :: "(nat \<times> 'a) list"

definition debounce_init :: "'a debounced" where
  "debounce_init = \<lparr>d_rt = runtime_init, timeout = None, d_calls = []\<rparr>"

definition later :: "'a \<Rightarrow> 'a debounced \<Rightarrow> 'a debounced" where
  "later args s =
     (let s1 = s\<lparr>d_rt := clearTimeout (timeout s) (d_rt s)\<rparr>
      in s1\<lparr>d_calls := d_calls s1 @ [(clock (d_rt s1), args)]\<rparr>)"

definition executedFunction :: "nat \<Rightarrow> 'a \<Rightarrow> 'a debounced \<Rightarrow> 'a debounced" where
  "executedFunction wait args s =
     (let rt1 = clearTimeout (timeout s) (d_rt s);
          (h, rt2) = setTimeout args wait rt1
      in s\<lparr>d_rt := rt2, timeout := Some h\<rparr>)"

function debounce_timers :: "nat \<Rightarrow> 'a debounced \<Rightarrow> 'a debounced" where
  "debounce_timers now s =
     (case next_due now (d_rt s) of
        None \<Rightarrow> s
      | Some tm \<Rightarrow>
          debounce_timers now (later (callback tm) (s\<lparr>d_rt := take_timer tm (d_rt s)\<rparr>)))"
  by pat_completeness auto
termination
proof (relation "measure (\<lambda>(now, s). length (pending (d_rt s)))")
  show "wf (measure (\<lambda>(now, s::'a debounced). length (pending (d_rt s))))"
    by simp
next
  fix now :: nat and s :: "'a debounced" and tm :: "'a timer"
  assume nd: "next_due now (d_rt s) = Some tm"
  have "length (pending (d_rt (later (callback tm) (s\<lparr>d_rt := take_timer tm (d_rt s)\<rparr>))))
          \<le> length (pending (take_timer tm (d_rt s)))"
    by (simp add: later_def Let_def clearTimeout_length)
  also have "\<dots> < length (pending (d_rt s))"
    using nd by (rule take_timer_shorter)
  finally show "((now, later (callback tm) (s\<lparr>d_rt := take_timer tm (d_rt s)\<rparr>)), (now, s))
          \<in> measure (\<lambda>(now, s). length (pending (d_rt s)))"
    by simp
qed

declare debounce_timers.simps [simp del]

text \<open>
  A call of the debounced wrapper at time \<open>t\<close>, with a host that runs every timer on
  time: the due timers run, the clock reaches \<open>t\<close>, the wrapper runs.
  \<open>debounce_run\<close> delivers the calls in order and then lets the time pass until
  \<open>horizon\<close>.
\<close>

definition debounce_at :: "nat \<Rightarrow> nat \<times> 'a \<Rightarrow> 'a debounced \<Rightarrow> 'a debounced" where
  "debounce_at wait ev s =
     (let s1 = debounce_timers (fst ev) s;
          s2 = s1\<lparr>d_rt := tick (fst ev) (d_rt s1)\<rparr>
      in executedFunction wait (snd ev) s2)"

definition debounce_idle :: "nat \<Rightarrow> 'a debounced \<Rightarrow> 'a debounced" where
  "debounce_idle horizon s =
     (let s1 = debounce_timers horizon s in s1\<lparr>d_rt := tick horizon (d_rt s1)\<rparr>)"

definition debounce_run :: "nat \<Rightarrow> (nat \<times> 'a) list \<Rightarrow> nat \<Rightarrow> 'a debounced" where
  "debounce_run wait evs horizon =
     debounce_idle horizon (foldl (\<lambda>s ev. debounce_at wait ev s) debounce_init evs)"

text \<open>
  The state between the calls of a burst: nothing delivered yet, and one timer pending,
  the one the last call set at time \<open>t\<close>.
\<close>

definition armed :: "nat \<Rightarrow> nat \<Rightarrow> nat \<Rightarrow> 'a \<Rightarrow> 'a debounced \<Rightarrow> bool" where
  "armed h t wait a s \<longleftrightarrow>
     d_calls s = [] \<and> clock (d_rt s) = t \<and> timeout s = Some h \<and>
     pending (d_rt s) = [\<lparr>handle = h, due = t + wait, callback = a\<rparr>]"

section \<open>throttle (main.js, lines 14 to 25)\<close>

text \<open>
  The closure of \<open>throttle(func, limit)\<close> owns the gate \<open>inThrottle\<close> (undefined, so
  falsy, at first). Every pending timer stands for \<open>() => (inThrottle = false)\<close>. The
  calls of \<open>func\<close> are recorded with their time, context and arguments.
\<close>

record ('c, 'a, 'w) throttled =
  t_rt :: "unit runtime"
  inThrottle :: bool
  t_calls :: "(nat \<times> 'c \<times> 'a) list"
  world :: 'w

definition throttle_init :: "'w \<Rightarrow> ('c, 'a, 'w) throttled" where
  "throttle_init w = \<lparr>t_rt = runtime_init, inThrottle = False, t_calls = [], world = w\<rparr>"

text \<open>
  \<open>func\<close> is any function. It acts on a world of its own, it may call the throttled
  wrapper itself, any number of times, and go on from what each of these calls did, and
  in the end it returns or throws. What one call of \<open>func\<close> does is a \<open>prog\<close>:
  \<open>Return w\<close> leaves the world as \<open>w\<close> and returns; \<open>Throw e w\<close> leaves the world as
  \<open>w\<close> and throws \<open>e\<close>; \<open>Reenter c a w k\<close> has brought the world to \<open>w\<close>, calls the
  wrapper with the context \<open>c\<close> and the arguments \<open>a\<close>, and goes on as \<open>k\<close> tells from
  the completion of that call and the world after it.
\<close>

datatype ('c, 'a, 'w) prog =
    Return 'w
  | Throw exn 'w
  | Reenter 'c 'a 'w "unit completion \<Rightarrow> 'w \<Rightarrow> ('c, 'a, 'w) prog"

text \<open>One call of \<open>func\<close>; \<open>wrapper\<close> is what its calls of the wrapper reach.\<close>

primrec run_func ::
  "('c \<Rightarrow> 'a \<Rightarrow> ('c, 'a, 'w) throttled \<Rightarrow> unit completion \<times> ('c, 'a, 'w) throttled) \<Rightarrow>
     ('c, 'a, 'w) prog \<Rightarrow> ('c, 'a, 'w) throttled \<Rightarrow> unit completion \<times> ('c, 'a, 'w) throttled" where
  "run_func wrapper (Return w) s = (Returns (), s\<lparr>world := w\<rparr>)"
| "run_func wrapper (Throw e w) s = (Throws e, s\<lparr>world := w\<rparr>)"
| "run_func wrapper (Reenter c a w k) s =
     (case wrapper c a (s\<lparr>world := w\<rparr>) of
        (r, s1) \<Rightarrow> run_func wrapper (k r (world s1)) s1)"

text \<open>
  The wrapper. \<open>stack\<close> is the number of nested calls the call stack of the host still
  has room for; a call beyond it throws the RangeError of the host. \<open>func.apply\<close> runs
  with the gate still open: the gate is closed and the timer set once \<open>func\<close> has
  returned, and an exception of \<open>func\<close> leaves the wrapper before both.
\<close>

primrec throttle_wrapper ::
  "nat \<Rightarrow> ('c \<Rightarrow> 'a \<Rightarrow> 'w \<Rightarrow> ('c, 'a, 'w) prog) \<Rightarrow> nat \<Rightarrow> 'c \<Rightarrow> 'a \<Rightarrow>
     ('c, 'a, 'w) throttled \<Rightarrow> unit completion \<times> ('c, 'a, 'w) throttled" where
  "throttle_wrapper 0 func limit context args s = (Throws RangeError, s)"
| "throttle_wrapper (Suc stack) func limit context args s =
     (if \<not> inThrottle s then
        (case run_func (throttle_wrapper stack func limit) (func context args (world s))
                (s\<lparr>t_calls := t_calls s @ [(clock (t_rt s), context, args)]\<rparr>) of
           (Throws e, s1) \<Rightarrow> (Throws e, s1)
         | (Returns u, s1) \<Rightarrow>
             (Returns (),
              s1\<lparr>inThrottle := True, t_rt := snd (setTimeout () limit (t_rt s1))\<rparr>))
      else (Returns (), s))"

text \<open>
  The tasks of the host, one after the other: time passes until \<open>t\<close> (\<open>Elapse t\<close>); the
  host runs the callback of the timer that is due first, if one is due (\<open>RunTimer\<close>); a
  task calls the wrapper (\<open>Call c a\<close>). No timer runs inside a task, and none runs unless
  the host runs it. An exception that leaves the wrapper is reported by the host and the
  event loop goes on.
\<close>

datatype ('c, 'a) task = Elapse nat | RunTimer | Call 'c 'a

definition throttle_elapse :: "nat \<Rightarrow> ('c, 'a, 'w) throttled \<Rightarrow> ('c, 'a, 'w) throttled" where
  "throttle_elapse t s = s\<lparr>t_rt := tick t (t_rt s)\<rparr>"

definition throttle_run_timer :: "('c, 'a, 'w) throttled \<Rightarrow> ('c, 'a, 'w) throttled" where
  "throttle_run_timer s =
     (case next_due (clock (t_rt s)) (t_rt s) of
        None \<Rightarrow> s
      | Some tm \<Rightarrow> s\<lparr>t_rt := take_timer tm (t_rt s), inThrottle := False\<rparr>)"

definition throttle_step ::
  "nat \<Rightarrow> ('c \<Rightarrow> 'a \<Rightarrow> 'w \<Rightarrow> ('c, 'a, 'w) prog) \<Rightarrow> nat \<Rightarrow> ('c, 'a) task \<Rightarrow>
     ('c, 'a, 'w) throttled \<Rightarrow> ('c, 'a, 'w) throttled" where
  "throttle_step stack func limit tk s =
     (case tk of
        Elapse t \<Rightarrow> throttle_elapse t s
      | RunTimer \<Rightarrow> throttle_run_timer s
      | Call c a \<Rightarrow> snd (throttle_wrapper stack func limit c a s))"

definition throttle_run ::
  "nat \<Rightarrow> ('c \<Rightarrow> 'a \<Rightarrow> 'w \<Rightarrow> ('c, 'a, 'w) prog) \<Rightarrow> nat \<Rightarrow> ('c, 'a) task list \<Rightarrow> 'w \<Rightarrow>
     ('c, 'a, 'w) throttled" where
  "throttle_run stack func limit tasks w =
     foldl (\<lambda>s tk. throttle_step stack func limit tk s) (throttle_init w) tasks"

text \<open>
  A task that happens before the time \<open>d\<close>, and the state while the gate is closed: one
  timer pending, due at \<open>d\<close>, the clock before \<open>d\<close>, and the calls and the world as
  \<open>func\<close> left them.
\<close>

fun before :: "nat \<Rightarrow> ('c, 'a) task \<Rightarrow> bool" where
  "before d (Elapse t) = (t < d)"
| "before d RunTimer = True"
| "before d (Call c a) = True"

definition closed_since ::
  "nat \<Rightarrow> nat \<Rightarrow> (nat \<times> 'c \<times> 'a) list \<Rightarrow> 'w \<Rightarrow> ('c, 'a, 'w) throttled \<Rightarrow> bool" where
  "closed_since h d cs w s \<longleftrightarrow>
     inThrottle s \<and> pending (t_rt s) = [\<lparr>handle = h, due = d, callback = ()\<rparr>] \<and>
     clock (t_rt s) < d \<and> t_calls s = cs \<and> world s = w"

section \<open>The page\<close>

text \<open>
  The page is the world the handlers act on. Nodes are object references. The query
  engine belongs to the host: \<open>querySelector\<close> and \<open>querySelectorAll\<close> give, for a
  selector string, what \<open>document.querySelector\<close> returns or throws on the current
  tree. No handler of main.js changes an id, a tag or the shape of the tree, so the
  engine's answers stay as they are while the handlers run.
\<close>

type_synonym node = nat

record style =
  background :: string
  backdropFilter :: string
  webkitBackdropFilter :: string

record element =
  classList :: "string list"
  style :: style
  href :: "string option"
  dataset_src :: "string option"
  src :: "string option"

datatype scroll_args = ScrollOptions real string | ScrollXY real real

datatype scroll_call =
    ScrollIntoView node string string
  | ScrollTo scroll_args

record page =
  querySelector :: "string \<Rightarrow> node option completion"
  querySelectorAll :: "string \<Rightarrow> node list completion"
  elements :: "node \<Rightarrow> element"
  contains :: "node \<Rightarrow> node \<Rightarrow> bool"
  console :: "string list"
  scrollY :: "real option"
  pageYOffset :: real
  innerWidth :: int
  scrollTo_host :: "scroll_args \<Rightarrow> unit completion"
  scroll_calls :: "scroll_call list"
  activeElement :: "node option"
  has_IntersectionObserver :: bool
  observed :: "node set"

definition update_element :: "node \<Rightarrow> (element \<Rightarrow> element) \<Rightarrow> page \<Rightarrow> page" where
  "update_element n f p = p\<lparr>elements := (elements p)(n := f (elements p n))\<rparr>"

text \<open>A class list is an ordered set of tokens: adding a token it has changes nothing.\<close>

definition classList_add :: "string \<Rightarrow> element \<Rightarrow> element" where
  "classList_add c e =
     (if c \<in> set (classList e) then e else e\<lparr>classList := classList e @ [c]\<rparr>)"

definition classList_remove :: "string \<Rightarrow> element \<Rightarrow> element" where
  "classList_remove c e = e\<lparr>classList := removeAll c (classList e)\<rparr>"

definition classList_contains :: "string \<Rightarrow> element \<Rightarrow> bool" where
  "classList_contains c e = (c \<in> set (classList e))"

definition console_warn :: "string \<Rightarrow> page \<Rightarrow> page" where
  "console_warn msg p = p\<lparr>console := console p @ [msg]\<rparr>"

text \<open>\<open>try { body } catch (e) { handler }\<close> over the page.\<close>

definition try_catch ::
  "'a completion \<times> page \<Rightarrow> (exn \<Rightarrow> page \<Rightarrow> 'a completion \<times> page) \<Rightarrow> 'a completion \<times> page" where
  "try_catch body handler =
     (case body of
        (Returns v, p) \<Rightarrow> (Returns v, p)
      | (Throws e, p) \<Rightarrow> handler e p)"

section \<open>safeSelect and safeSelectAll (lines 37 to 54)\<close>

definition safeSelect :: "string \<Rightarrow> page \<Rightarrow> node option completion \<times> page" where
  "safeSelect selector p =
     try_catch (querySelector p selector, p)
       (\<lambda>e p'. (Returns None, console_warn (''Invalid selector: '' @ selector) p'))"

definition safeSelectAll :: "string \<Rightarrow> page \<Rightarrow> node list completion \<times> page" where
  "safeSelectAll selector p =
     try_catch (querySelectorAll p selector, p)
       (\<lambda>e p'. (Returns [], console_warn (''Invalid selector: '' @ selector) p'))"

section \<open>The click handler of the anchor links (lines 59 to 73)\<close>

text \<open>
  \<open>getAttribute\<close> gives null where the attribute is gone, and a null selector reaches
  the query engine as the string "null".
\<close>

record event =
  defaultPrevented :: bool

definition to_DOMString :: "string option \<Rightarrow> string" where
  "to_DOMString v = (case v of None \<Rightarrow> ''null'' | Some s \<Rightarrow> s)"

definition anchor_click :: "node \<Rightarrow> event \<Rightarrow> page \<Rightarrow> unit completion \<times> event \<times> page" where
  "anchor_click this e p =
     (let e1 = e\<lparr>defaultPrevented := True\<rparr>;
          h = href (elements p this)
      in case safeSelect (to_DOMString h) p of
           (Throws x, p1) \<Rightarrow> (Throws x, e1, p1)
         | (Returns target, p1) \<Rightarrow>
             (case target of
                Some n \<Rightarrow>
                  (Returns (), e1,
                   p1\<lparr>scroll_calls := scroll_calls p1 @ [ScrollIntoView n ''smooth'' ''start'']\<rparr>)
              | None \<Rightarrow> (Returns (), e1, p1)))"

section \<open>handleScroll (lines 79 to 104)\<close>

definition elevated :: "style \<Rightarrow> style" where
  "elevated st =
     st\<lparr>background :=
          ''linear-gradient(90deg, rgba(242, 145, 182, 0.95), rgba(228, 183, 207, 0.95))'',
        backdropFilter := ''blur(10px)'',
        webkitBackdropFilter := ''blur(10px)''\<rparr>"

definition base :: "style \<Rightarrow> style" where
  "base st =
     st\<lparr>background := ''linear-gradient(90deg, #f291b6, #e4b7cf)'',
        backdropFilter := ''none'',
        webkitBackdropFilter := ''none''\<rparr>"

text \<open>\<open>window.scrollY || window.pageYOffset\<close>: an undefined or zero scrollY is falsy.\<close>

definition scroll_offset :: "page \<Rightarrow> real" where
  "scroll_offset p =
     (case scrollY p of
        None \<Rightarrow> pageYOffset p
      | Some y \<Rightarrow> if y \<noteq> 0 then y else pageYOffset p)"

definition handleScroll_body ::
  "node option \<Rightarrow> node option \<Rightarrow> unit \<Rightarrow> unit \<Rightarrow> page \<Rightarrow> unit completion \<times> page" where
  "handleScroll_body header scrollTopBtn this args p =
     (let y = scroll_offset p;
          p1 = (case header of
                  None \<Rightarrow> p
                | Some h \<Rightarrow>
                    if y > 100 then update_element h (\<lambda>e. e\<lparr>style := elevated (style e)\<rparr>) p
                    else update_element h (\<lambda>e. e\<lparr>style := base (style e)\<rparr>) p);
          p2 = (case scrollTopBtn of
                  None \<Rightarrow> p1
                | Some b \<Rightarrow>
                    if y > 500 then update_element b (classList_add ''visible'') p1
                    else update_element b (classList_remove ''visible'') p1)
      in (Returns (), p2))"

text \<open>
  The listener is \<open>throttle(body, 16)\<close>; the body never calls the listener. A scroll
  event: the host has scrolled the page to the offset and calls the listener.
\<close>

definition plain_func ::
  "('c \<Rightarrow> 'a \<Rightarrow> 'w \<Rightarrow> 'r completion \<times> 'w) \<Rightarrow> 'c \<Rightarrow> 'a \<Rightarrow> 'w \<Rightarrow> ('c, 'a, 'w) prog" where
  "plain_func f c a w =
     (case f c a w of
        (Returns r, w1) \<Rightarrow> Return w1
      | (Throws e, w1) \<Rightarrow> Throw e w1)"

definition handleScroll ::
  "node option \<Rightarrow> node option \<Rightarrow> nat \<Rightarrow> unit \<Rightarrow> unit \<Rightarrow> (unit, unit, page) throttled \<Rightarrow>
     unit completion \<times> (unit, unit, page) throttled" where
  "handleScroll header scrollTopBtn stack =
     throttle_wrapper stack (plain_func (handleScroll_body header scrollTopBtn)) 16"

definition scroll_to :: "real \<Rightarrow> page \<Rightarrow> page" where
  "scroll_to y p = p\<lparr>scrollY := map_option (\<lambda>_. y) (scrollY p), pageYOffset := y\<rparr>"

definition scroll_event ::
  "node option \<Rightarrow> node option \<Rightarrow> nat \<Rightarrow> real \<Rightarrow> (unit, unit, page) throttled \<Rightarrow>
     (unit, unit, page) throttled" where
  "scroll_event header scrollTopBtn stack y s =
     snd (handleScroll header scrollTopBtn stack () () (s\<lparr>world := scroll_to y (world s)\<rparr>))"

text \<open>The tasks of the host around the listener: a scroll event, time passing, a timer run.\<close>

datatype scroll_task = Scroll real | Wait nat | Timer

definition scroll_step ::
  "node option \<Rightarrow> node option \<Rightarrow> nat \<Rightarrow> scroll_task \<Rightarrow> (unit, unit, page) throttled \<Rightarrow>
     (unit, unit, page) throttled" where
  "scroll_step header scrollTopBtn stack tk s =
     (case tk of
        Scroll y \<Rightarrow> scroll_event header scrollTopBtn stack y s
      | Wait t \<Rightarrow> throttle_elapse t s
      | Timer \<Rightarrow> throttle_run_timer s)"

section \<open>The mobile menu (lines 110 to 119, 190 to 202, 225 to 230)\<close>

text \<open>
  The click listener is registered only when both the menu and its toggle were found, so
  it holds two nodes; the keyboard listener holds what the two queries returned.
\<close>

definition outside_click :: "node \<Rightarrow> node \<Rightarrow> node \<Rightarrow> page \<Rightarrow> page" where
  "outside_click mobileMenu menuToggle target p =
     (if \<not> contains p mobileMenu target \<and> \<not> contains p menuToggle target
      then update_element mobileMenu (classList_remove ''active'') p
      else p)"

definition handleKeyboardNavigation :: "node option \<Rightarrow> node option \<Rightarrow> string \<Rightarrow> page \<Rightarrow> page" where
  "handleKeyboardNavigation mobileMenu menuToggle key p =
     (case mobileMenu of
        None \<Rightarrow> p
      | Some m \<Rightarrow>
          if key = ''Escape'' \<and> classList_contains ''active'' (elements p m) then
            (let p1 = update_element m (classList_remove ''active'') p
             in case menuToggle of
                  None \<Rightarrow> p1
                | Some t \<Rightarrow> p1\<lparr>activeElement := Some t\<rparr>)
          else p)"

definition closeMobileMenu :: "page \<Rightarrow> unit completion \<times> page" where
  "closeMobileMenu p =
     (case safeSelect ''#mobileMenu'' p of
        (Throws x, p1) \<Rightarrow> (Throws x, p1)
      | (Returns mobileMenu, p1) \<Rightarrow>
          (case mobileMenu of
             None \<Rightarrow> (Returns (), p1)
           | Some m \<Rightarrow> (Returns (), update_element m (classList_remove ''active'') p1)))"

section \<open>The lazy images (lines 153 to 178)\<close>

text \<open>
  \<open>img.dataset.src\<close> is undefined without the attribute, and \<open>if (src)\<close> takes the
  empty string for false as well. The observer belongs to the host: it reports an entry
  only for a target it is observing when it notifies.
\<close>

record entry =
  isIntersecting :: bool
  target :: node

definition truthy :: "string option \<Rightarrow> bool" where
  "truthy v = (case v of None \<Rightarrow> False | Some s \<Rightarrow> s \<noteq> [])"

definition on_entry :: "entry \<Rightarrow> page \<Rightarrow> page" where
  "on_entry en p =
     (if isIntersecting en then
        (let img = target en;
             s = dataset_src (elements p img)
         in if truthy s then
              (update_element img (\<lambda>e. classList_remove ''lazy'' (e\<lparr>src := s\<rparr>)) p)
                \<lparr>observed := observed p - {img}\<rparr>
            else p)
      else p)"

definition imageObserver_callback :: "entry list \<Rightarrow> page \<Rightarrow> page" where
  "imageObserver_callback entries p = foldl (\<lambda>q en. on_entry en q) p entries"

definition observer_notify :: "entry list \<Rightarrow> page \<Rightarrow> page" where
  "observer_notify entries p =
     imageObserver_callback (filter (\<lambda>en. target en \<in> observed p) entries) p"

text \<open>The bootstrap (lines 153 and 174 to 177): every image the query finds is observed.\<close>

definition observe_lazy_images :: "page \<Rightarrow> unit completion \<times> page" where
  "observe_lazy_images p =
     (if has_IntersectionObserver p then
        (case safeSelectAll ''img[data-src]'' p of
           (Throws x, p1) \<Rightarrow> (Throws x, p1)
         | (Returns lazyImages, p1) \<Rightarrow>
             (Returns (), p1\<lparr>observed := observed p1 \<union> set lazyImages\<rparr>))
      else (Returns (), p))"

text \<open>
  The notifications of the observer, one batch of entries after the other, and what it
  means for an image to have been upgraded from the source \<open>s\<close>.
\<close>

definition observer_run :: "entry list list \<Rightarrow> page \<Rightarrow> page" where
  "observer_run batches p = foldl (\<lambda>q es. observer_notify es q) p batches"

definition upgraded :: "node \<Rightarrow> string \<Rightarrow> page \<Rightarrow> bool" where
  "upgraded i s p \<longleftrightarrow>
     src (elements p i) = Some s \<and> ''lazy'' \<notin> set (classList (elements p i)) \<and> i \<notin> observed p"

section \<open>scrollToTop and getScreenSize (lines 232 to 252)\<close>

text \<open>
  \<open>window.scrollTo\<close> is one function of the host with two overloads. \<open>scrollTo_host\<close>
  tells, for the arguments of a call, whether the host performs the call or throws (it
  has no such overload, or no such function).
\<close>

definition window_scrollTo :: "scroll_args \<Rightarrow> page \<Rightarrow> unit completion \<times> page" where
  "window_scrollTo args p =
     (case scrollTo_host p args of
        Throws e \<Rightarrow> (Throws e, p)
      | Returns u \<Rightarrow> (Returns (), p\<lparr>scroll_calls := scroll_calls p @ [ScrollTo args]\<rparr>))"

definition scrollToTop :: "page \<Rightarrow> unit completion \<times> page" where
  "scrollToTop p =
     try_catch (window_scrollTo (ScrollOptions 0 ''smooth'') p)
       (\<lambda>e p'. window_scrollTo (ScrollXY 0 0) p')"

definition getScreenSize :: "page \<Rightarrow> string" where
  "getScreenSize p =
     (let width = innerWidth p
      in if width < 576 then ''xs''
         else if width < 768 then ''sm''
         else if width < 992 then ''md''
         else if width < 1200 then ''lg''
         else ''xl'')"

section \<open>The closest shim (lines 284 to 293)\<close>

text \<open>
  The tree is a store of nodes with parent references, so a cycle can be written down and
  the loop of the shim need not end: not returning is the value \<open>None\<close>. The selector is
  taken to be valid, so \<open>el.matches(s)\<close> is a truth value.
\<close>

record dom_node =
  nodeType :: nat
  parentElement :: "node option"
  parentNode :: "node option"

definition step_up :: "(node \<Rightarrow> dom_node) \<Rightarrow> node \<Rightarrow> node option" where
  "step_up tree el =
     (case parentElement (tree el) of
        Some p \<Rightarrow> Some p
      | None \<Rightarrow> parentNode (tree el))"

partial_function (option) closest ::
  "(node \<Rightarrow> dom_node) \<Rightarrow> (node \<Rightarrow> string \<Rightarrow> bool) \<Rightarrow> string \<Rightarrow> node \<Rightarrow> node option option" where
  "closest tree matches s el =
     (if matches el s then Some (Some el)
      else (case step_up tree el of
              None \<Rightarrow> Some None
            | Some p \<Rightarrow> if nodeType (tree p) = 1 then closest tree matches s p else Some None))"

text \<open>
  The parent chain of an element, as the claim about the shim speaks of it: the element
  and its element ancestors up to the top of the tree, found within \<open>n\<close> steps.
\<close>

fun parent_chain :: "nat \<Rightarrow> (node \<Rightarrow> dom_node) \<Rightarrow> node \<Rightarrow> node list option" where
  "parent_chain 0 tree el = None"
| "parent_chain (Suc n) tree el =
     (case step_up tree el of
        None \<Rightarrow> Some [el]
      | Some p \<Rightarrow>
          if nodeType (tree p) = 1 then map_option ((#) el) (parent_chain n tree p)
          else Some [el])"

section \<open>An example page\<close>

text \<open>
  Node 1 is the open mobile menu, 2 the section the link 6 points at, 3 the menu toggle,
  4 the header, 5 the scroll-to-top button, 7 a lazy image, 8 a lazy image whose
  deferred source is the empty string, 9 a link whose href is the bare hash. The host has
  no options overload of \<open>window.scrollTo\<close>, and nothing is observed before the
  bootstrap.
\<close>

definition plain :: element where
  "plain =
     \<lparr>classList = [],
      style = \<lparr>background = [], backdropFilter = [], webkitBackdropFilter = []\<rparr>,
      href = None, dataset_src = None, src = None\<rparr>"

definition example_page :: page where
  "example_page =
     \<lparr>querySelector =
        (\<lambda>s. if s = ''#mobileMenu'' then Returns (Some 1)
             else if s = ''#section2'' then Returns (Some 2)
             else if s = ''#'' then Throws SyntaxError
             else Returns None),
      querySelectorAll =
        (\<lambda>s. if s = ''#'' then Throws SyntaxError
             else if s = ''img[data-src]'' then Returns [7, 8]
             else Returns []),
      elements =
        (\<lambda>n. if n = 1 then plain\<lparr>classList := [''menu'', ''active'']\<rparr>
             else if n = 6 then plain\<lparr>href := Some ''#section2''\<rparr>
             else if n = 7 then plain\<lparr>classList := [''lazy''], dataset_src := Some ''photo.jpg''\<rparr>
             else if n = 8 then plain\<lparr>classList := [''lazy''], dataset_src := Some []\<rparr>
             else if n = 9 then plain\<lparr>href := Some ''#''\<rparr>
             else plain),
      contains = (\<lambda>a b. a = b),
      console = [],
      scrollY = Some 0,
      pageYOffset = 0,
      innerWidth = 800,
      scrollTo_host =
        (\<lambda>args. case args of
                  ScrollOptions y behavior \<Rightarrow> Throws TypeError
                | ScrollXY x y \<Rightarrow> Returns ()),
      scroll_calls = [],
      activeElement = None,
      has_IntersectionObserver = True,
      observed = {}\<rparr>"

text \<open>
  An example tree: node 0 is the document, node 1 the root element, every other node the
  child of the node before it. The nodes 1 and 2 match ".card" and nothing else matches.
\<close>

definition example_tree :: "node \<Rightarrow> dom_node" where
  "example_tree n =
     (if n = 0 then \<lparr>nodeType = 9, parentElement = None, parentNode = None\<rparr>
      else if n = 1 then \<lparr>nodeType = 1, parentElement = None, parentNode = Some 0\<rparr>
      else \<lparr>nodeType = 1, parentElement = Some (n - 1), parentNode = Some (n - 1)\<rparr>)"

definition example_matches :: "node \<Rightarrow> string \<Rightarrow> bool" where
  "example_matches n s = (s = ''.card'' \<and> (n = 2 \<or> n = 1))"

text \<open>The example page after \<open>closeMobileMenu\<close>: the menu has lost "active".\<close>

definition closed_page :: page where
  "closed_page = update_element 1 (classList_remove ''active'') example_page"

text \<open>
  The example page after the bootstrap of the lazy images, and the example page in a host
  whose \<open>window.scrollTo\<close> throws whatever it is called with.
\<close>

definition lazy_page :: page where
  "lazy_page = snd (observe_lazy_images example_page)"

definition broken_page :: page where
  "broken_page = example_page\<lparr>scrollTo_host := (\<lambda>args. Throws TypeError)\<rparr>"

text \<open>
  Three functions to throttle: one counts its calls in its world and returns, one always
  throws, and one calls the wrapper once more, with the arguments "again", unless these
  are its own arguments. And the scroll listener of the example page (header 4, button
  5) run from the start over a list of tasks.
\<close>

definition counting :: "unit \<Rightarrow> string \<Rightarrow> nat \<Rightarrow> (unit, string, nat) prog" where
  "counting this args w = Return (Suc w)"

definition always_throws :: "unit \<Rightarrow> string \<Rightarrow> nat \<Rightarrow> (unit, string, nat) prog" where
  "always_throws this args w = Throw (OtherError ''boom'') w"

definition reentering :: "unit \<Rightarrow> string \<Rightarrow> nat \<Rightarrow> (unit, string, nat) prog" where
  "reentering this args w =
     (if args = ''again'' then Return (Suc w)
      else Reenter () ''again'' (Suc w) (\<lambda>r w1. Return w1))"

definition scrolled :: "scroll_task list \<Rightarrow> (unit, unit, page) throttled" where
  "scrolled tasks =
     foldl (\<lambda>s tk. scroll_step (Some 4) (Some 5) 1 tk s) (throttle_init example_page) tasks"

section \<open>Helper facts\<close>

lemma classList_remove_twice:
  "classList_remove c (classList_remove c e) = classList_remove c e"
  by (simp add: classList_remove_def)

lemma classList_remove_absent:
  "\<not> classList_contains c e \<Longrightarrow> classList_remove c e = e"
  by (simp add: classList_remove_def classList_contains_def)

lemma update_element_twice:
  "update_element n f (update_element n f p) = update_element n (\<lambda>e. f (f e)) p"
  by (simp add: update_element_def)

lemma update_element_same: "f (elements p n) = elements p n \<Longrightarrow> update_element n f p = p"
  by (simp add: update_element_def)

lemma elements_update_element:
  "elements (update_element n f p) k = (if k = n then f (elements p n) else elements p k)"
  by (simp add: update_element_def)

subsection \<open>debounce\<close>

lemma debounce_timers_idle: "next_due now (d_rt s) = None \<Longrightarrow> debounce_timers now s = s"
  by (subst debounce_timers.simps) simp

lemma debounce_timers_fire:
  "next_due now (d_rt s) = Some tm \<Longrightarrow>
   debounce_timers now s =
     debounce_timers now (later (callback tm) (s\<lparr>d_rt := take_timer tm (d_rt s)\<rparr>))"
  by (subst debounce_timers.simps) simp

lemma armed_not_due: "armed h t wait a s \<Longrightarrow> now < t + wait \<Longrightarrow> next_due now (d_rt s) = None"
  by (simp add: armed_def next_due_def)

lemma armed_due:
  "armed h t wait a s \<Longrightarrow> t + wait \<le> now \<Longrightarrow>
   next_due now (d_rt s) = Some \<lparr>handle = h, due = t + wait, callback = a\<rparr>"
  by (simp add: armed_def next_due_def)

lemma debounce_first: "armed (Suc 0) t wait a (debounce_at wait (t, a) debounce_init)"
proof -
  have "next_due t (d_rt (debounce_init :: 'a debounced)) = None"
    by (simp add: debounce_init_def runtime_init_def next_due_def)
  then have "debounce_timers t (debounce_init :: 'a debounced) = debounce_init"
    by (rule debounce_timers_idle)
  then show ?thesis
    by (simp add: debounce_at_def armed_def Let_def executedFunction_def tick_def
          clearTimeout_def setTimeout_def debounce_init_def runtime_init_def)
qed

lemma debounce_step:
  assumes "armed h t wait a s" and "t \<le> t'" and "t' < t + wait"
  shows "armed (next_handle (d_rt s)) t' wait a' (debounce_at wait (t', a') s)"
proof -
  from assms(1,3) have "debounce_timers t' s = s"
    by (simp add: debounce_timers_idle armed_not_due)
  with assms(1,2) show ?thesis
    by (simp add: debounce_at_def armed_def Let_def executedFunction_def tick_def
          clearTimeout_def setTimeout_def max_def)
qed

lemma debounce_burst_fold:
  assumes "armed h t wait a s" and "sorted (t # map fst es)"
    and "\<forall>e \<in> set es. fst e < bound" and "bound \<le> t + wait"
  shows "\<exists>h'. armed h' (fst (last ((t, a) # es))) wait (snd (last ((t, a) # es)))
           (foldl (\<lambda>s ev. debounce_at wait ev s) s es)"
  using assms
proof (induction es arbitrary: h t a s)
  case Nil
  then show ?case by auto
next
  case (Cons e es)
  obtain t' a' where e: "e = (t', a')" by (cases e)
  from Cons.prems(2) e have le: "t \<le> t'" by simp
  from Cons.prems(3) e have "t' < bound" by simp
  with Cons.prems(4) have lt: "t' < t + wait" by simp
  from debounce_step [OF Cons.prems(1) le lt]
  have ar: "armed (next_handle (d_rt s)) t' wait a' (debounce_at wait (t', a') s)" .
  from Cons.prems(2) e have so: "sorted (t' # map fst es)" by simp
  from Cons.prems(3) have bd: "\<forall>x \<in> set es. fst x < bound" by simp
  from Cons.prems(4) le have b2: "bound \<le> t' + wait" by simp
  from Cons.IH [OF ar so bd b2] e show ?case by simp
qed

lemma debounce_idle_armed:
  assumes "armed h t wait a s"
  shows "d_calls (debounce_idle horizon s) = (if t + wait \<le> horizon then [(t + wait, a)] else [])"
proof (cases "t + wait \<le> horizon")
  case True
  let ?tm = "\<lparr>handle = h, due = t + wait, callback = a\<rparr>"
  let ?s1 = "later (callback ?tm) (s\<lparr>d_rt := take_timer ?tm (d_rt s)\<rparr>)"
  from assms have p: "pending (d_rt ?s1) = []"
    by (simp add: armed_def later_def Let_def take_timer_def clearTimeout_def)
  then have "next_due horizon (d_rt ?s1) = None"
    by (simp add: next_due_def)
  then have "debounce_timers horizon ?s1 = ?s1"
    by (rule debounce_timers_idle)
  with debounce_timers_fire [OF armed_due [OF assms True]]
  have "debounce_timers horizon s = ?s1" by simp
  moreover from assms have "d_calls ?s1 = [(t + wait, a)]"
    by (simp add: armed_def later_def Let_def take_timer_def clearTimeout_def max_def)
  ultimately show ?thesis using True by (simp add: debounce_idle_def Let_def)
next
  case False
  with assms have "debounce_timers horizon s = s"
    by (simp add: debounce_timers_idle armed_not_due)
  with assms False show ?thesis
    by (simp add: debounce_idle_def Let_def armed_def)
qed

lemma sorted_le_last: "sorted (map fst evs) \<Longrightarrow> e \<in> set evs \<Longrightarrow> fst e \<le> fst (last evs)"
proof (induction evs)
  case Nil
  then show ?case by simp
next
  case (Cons x xs)
  show ?case
  proof (cases "xs = []")
    case True
    with Cons.prems show ?thesis by simp
  next
    case False
    then have l: "last xs \<in> set xs" by simp
    from Cons.prems(1) have s: "sorted (map fst xs)" by simp
    show ?thesis
    proof (cases "e = x")
      case True
      with Cons.prems(1) l False show ?thesis by auto
    next
      case False
      with Cons.prems(2) have "e \<in> set xs" by simp
      with Cons.IH s \<open>xs \<noteq> []\<close> show ?thesis by simp
    qed
  qed
qed

subsection \<open>throttle\<close>

lemma run_func_calls:
  assumes "\<And>c a s. \<exists>rest. t_calls (snd (wrapper c a s)) = t_calls s @ rest"
  shows "\<exists>rest. t_calls (snd (run_func wrapper pr s)) = t_calls s @ rest"
proof (induction pr arbitrary: s)
  case (Return w)
  then show ?case by simp
next
  case (Throw e w)
  then show ?case by simp
next
  case (Reenter c a w k)
  obtain r s1 where w: "wrapper c a (s\<lparr>world := w\<rparr>) = (r, s1)"
    by (cases "wrapper c a (s\<lparr>world := w\<rparr>)")
  from assms [of c a "s\<lparr>world := w\<rparr>"] w obtain r1 where r1: "t_calls s1 = t_calls s @ r1"
    by auto
  have "k r \<in> range k" and "k r (world s1) \<in> range (k r)"
    by simp_all
  from Reenter.IH [OF this, of s1]
  obtain r2 where "t_calls (snd (run_func wrapper (k r (world s1)) s1)) = t_calls s1 @ r2"
    by auto
  with w r1 show ?case by simp
qed

lemma throttle_wrapper_calls:
  "\<exists>rest. t_calls (snd (throttle_wrapper stack func limit c a s)) = t_calls s @ rest"
proof (induction stack arbitrary: c a s)
  case 0
  then show ?case by simp
next
  case (Suc stack)
  show ?case
  proof (cases "inThrottle s")
    case True
    then show ?thesis by simp
  next
    case False
    let ?s0 = "s\<lparr>t_calls := t_calls s @ [(clock (t_rt s), c, a)]\<rparr>"
    from run_func_calls [of "throttle_wrapper stack func limit" "func c a (world s)" ?s0, OF Suc.IH]
    obtain rest where
      "t_calls (snd (run_func (throttle_wrapper stack func limit) (func c a (world s)) ?s0)) =
         t_calls ?s0 @ rest"
      by auto
    with False show ?thesis
      by (auto split: prod.splits completion.splits)
  qed
qed

lemma throttle_wrapper_open:
  assumes "\<not> inThrottle s"
  shows "\<exists>rest. t_calls (snd (throttle_wrapper (Suc stack) func limit c a s)) =
           t_calls s @ (clock (t_rt s), c, a) # rest"
proof -
  let ?s0 = "s\<lparr>t_calls := t_calls s @ [(clock (t_rt s), c, a)]\<rparr>"
  from run_func_calls [of "throttle_wrapper stack func limit" "func c a (world s)" ?s0,
      OF throttle_wrapper_calls]
  obtain rest where
    "t_calls (snd (run_func (throttle_wrapper stack func limit) (func c a (world s)) ?s0)) =
       t_calls ?s0 @ rest"
    by auto
  with assms show ?thesis
    by (auto split: prod.splits completion.splits)
qed

lemma throttle_wrapper_plain:
  assumes "\<not> inThrottle s" and "func c a (world s) = Return w"
  shows "throttle_wrapper (Suc stack) func limit c a s =
           (Returns (),
            s\<lparr>t_calls := t_calls s @ [(clock (t_rt s), c, a)], world := w, inThrottle := True,
               t_rt := snd (setTimeout () limit (t_rt s))\<rparr>)"
  using assms by simp

lemma throttle_first:
  assumes "func c a w0 = Return w1" and "0 < limit"
  shows "closed_since (Suc 0) (t + limit) [(t, c, a)] w1
           (throttle_run (Suc stack) func limit [Elapse t, Call c a] w0)"
  using assms
  by (simp add: throttle_run_def throttle_step_def throttle_elapse_def throttle_init_def
        runtime_init_def tick_def setTimeout_def closed_since_def)

lemma throttle_dropped:
  assumes "closed_since h d cs w s" and "before d tk"
  shows "closed_since h d cs w (throttle_step stack func limit tk s)"
proof (cases tk)
  case (Elapse t)
  with assms show ?thesis
    by (simp add: throttle_step_def throttle_elapse_def tick_def closed_since_def)
next
  case RunTimer
  from assms(1) have "next_due (clock (t_rt s)) (t_rt s) = None"
    by (simp add: closed_since_def next_due_def)
  with RunTimer assms(1) show ?thesis
    by (simp add: throttle_step_def throttle_run_timer_def)
next
  case (Call c a)
  from assms(1) have "inThrottle s" by (simp add: closed_since_def)
  then have "throttle_wrapper stack func limit c a s = (if stack = 0 then (Throws RangeError, s) else (Returns (), s))"
    by (cases stack) simp_all
  with Call assms(1) show ?thesis
    by (simp add: throttle_step_def)
qed

lemma throttle_burst_fold:
  assumes "closed_since h d cs w s" and "\<forall>tk \<in> set tasks. before d tk"
  shows "closed_since h d cs w (foldl (\<lambda>s tk. throttle_step stack func limit tk s) s tasks)"
  using assms
proof (induction tasks arbitrary: s)
  case Nil
  then show ?case by simp
next
  case (Cons tk tasks)
  from Cons.prems have "closed_since h d cs w (throttle_step stack func limit tk s)"
    by (simp add: throttle_dropped)
  with Cons.IH Cons.prems(2) show ?case by simp
qed

lemma throttle_reopened:
  assumes "closed_since h d cs w s" and "d \<le> t"
  shows "\<exists>rest. t_calls (foldl (\<lambda>s tk. throttle_step (Suc stack) func limit tk s) s
                     [Elapse t, RunTimer, Call c a]) = cs @ (t, c, a) # rest"
proof -
  let ?s1 = "throttle_elapse t s"
  let ?s2 = "throttle_run_timer ?s1"
  from assms have c1: "clock (t_rt ?s1) = t"
    by (simp add: throttle_elapse_def tick_def closed_since_def)
  from assms c1 have "next_due (clock (t_rt ?s1)) (t_rt ?s1) =
      Some \<lparr>handle = h, due = d, callback = ()\<rparr>"
    by (simp add: throttle_elapse_def tick_def closed_since_def next_due_def)
  with assms have s2: "\<not> inThrottle ?s2" "clock (t_rt ?s2) = t" "t_calls ?s2 = cs"
    by (simp_all add: throttle_run_timer_def take_timer_def throttle_elapse_def tick_def
          closed_since_def)
  from throttle_wrapper_open [OF s2(1), of stack func limit c a] s2(2,3)
  show ?thesis
    by (simp add: throttle_step_def)
qed

lemmas throttle_eval = throttle_run_def throttle_step_def throttle_elapse_def throttle_run_timer_def
  throttle_init_def runtime_init_def tick_def setTimeout_def next_due_def take_timer_def

subsection \<open>handleScroll\<close>

lemma scroll_offset_scroll_to: "scroll_offset (scroll_to y p) = y"
  by (cases "scrollY p") (simp_all add: scroll_offset_def scroll_to_def)

lemma handleScroll_body_returns:
  "fst (handleScroll_body header scrollTopBtn this args p) = Returns ()"
  by (simp add: handleScroll_body_def Let_def)

lemma scroll_event_open:
  assumes "\<not> inThrottle s"
  shows "world (scroll_event header scrollTopBtn (Suc stack) y s) =
           snd (handleScroll_body header scrollTopBtn () () (scroll_to y (world s)))"
proof -
  obtain p1 where "handleScroll_body header scrollTopBtn () () (scroll_to y (world s)) =
      (Returns (), p1)"
    using handleScroll_body_returns [of header scrollTopBtn "()" "()" "scroll_to y (world s)"]
    by (cases "handleScroll_body header scrollTopBtn () () (scroll_to y (world s))") simp
  with assms show ?thesis
    by (simp add: scroll_event_def handleScroll_def plain_func_def)
qed

lemma scroll_event_closed:
  assumes "inThrottle s"
  shows "scroll_event header scrollTopBtn stack y s = s\<lparr>world := scroll_to y (world s)\<rparr>"
  using assms by (cases stack) (simp_all add: scroll_event_def handleScroll_def)

lemma handleScroll_body_header:
  "style (elements (snd (handleScroll_body (Some h) scrollTopBtn () () p)) h) =
     (if scroll_offset p > 100 then elevated (style (elements p h))
      else base (style (elements p h)))"
  by (cases scrollTopBtn)
     (simp_all add: handleScroll_body_def Let_def update_element_def classList_add_def
        classList_remove_def)

lemma handleScroll_body_button:
  "(''visible'' \<in> set (classList (elements (snd (handleScroll_body header (Some b) () () p)) b)))
     = (scroll_offset p > 500)"
  by (cases header)
     (simp_all add: handleScroll_body_def Let_def update_element_def classList_add_def
        classList_remove_def)

lemma scroll_event_header:
  assumes "\<not> inThrottle s"
  shows "style (elements (world (scroll_event (Some h) scrollTopBtn (Suc stack) y s)) h) =
           (if y > 100 then elevated (style (elements (world s) h))
            else base (style (elements (world s) h)))"
proof -
  have e: "elements (scroll_to y (world s)) = elements (world s)"
    by (simp add: scroll_to_def)
  show ?thesis
    unfolding scroll_event_open [OF assms]
    by (simp only: handleScroll_body_header scroll_offset_scroll_to e)
qed

lemma scroll_event_button:
  assumes "\<not> inThrottle s"
  shows "(''visible'' \<in> set (classList
            (elements (world (scroll_event header (Some b) (Suc stack) y s)) b))) = (y > 500)"
  unfolding scroll_event_open [OF assms]
  by (simp only: handleScroll_body_button scroll_offset_scroll_to)

lemmas scrolled_run = scrolled_def scroll_step_def scroll_event_def handleScroll_def plain_func_def
  throttle_elapse_def throttle_run_timer_def handleScroll_body_def throttle_init_def
  runtime_init_def next_due_def tick_def take_timer_def setTimeout_def Let_def scroll_to_def
  scroll_offset_def update_element_def classList_add_def classList_remove_def example_page_def
  plain_def elevated_def base_def

subsection \<open>The mobile menu\<close>

lemma closeMobileMenu_cases:
  "closeMobileMenu p =
     (case querySelector p ''#mobileMenu'' of
        Returns None \<Rightarrow> (Returns (), p)
      | Returns (Some m) \<Rightarrow> (Returns (), update_element m (classList_remove ''active'') p)
      | Throws x \<Rightarrow> (Returns (), console_warn ''Invalid selector: #mobileMenu'' p))"
  by (simp add: closeMobileMenu_def safeSelect_def try_catch_def
        split: completion.splits option.splits)

lemma closeMobileMenu_twice:
  "elements (snd (closeMobileMenu (snd (closeMobileMenu p)))) = elements (snd (closeMobileMenu p))"
proof (cases "querySelector p ''#mobileMenu''")
  case (Returns r)
  show ?thesis
  proof (cases r)
    case None
    with Returns show ?thesis by (simp add: closeMobileMenu_cases)
  next
    case (Some m)
    have q: "querySelector (update_element m (classList_remove ''active'') p) = querySelector p"
      by (simp add: update_element_def)
    from Some Returns show ?thesis
      by (simp add: closeMobileMenu_cases q update_element_twice classList_remove_twice)
  qed
next
  case (Throws x)
  then show ?thesis by (simp add: closeMobileMenu_cases console_warn_def)
qed

lemma closeMobileMenu_closed:
  "querySelector p ''#mobileMenu'' = Returns (Some m) \<Longrightarrow>
   \<not> classList_contains ''active'' (elements p m) \<Longrightarrow> snd (closeMobileMenu p) = p"
  by (simp add: closeMobileMenu_cases update_element_same classList_remove_absent)

lemma closeMobileMenu_only_removes:
  "classList (elements (snd (closeMobileMenu p)) n) = classList (elements p n) \<or>
   classList (elements (snd (closeMobileMenu p)) n) = removeAll ''active'' (classList (elements p n))"
  by (simp add: closeMobileMenu_cases elements_update_element classList_remove_def console_warn_def
        split: completion.splits option.splits)

lemma outside_click_twice:
  "outside_click m t x (outside_click m t x p) = outside_click m t x p"
proof -
  have c: "contains (update_element m (classList_remove ''active'') p) = contains p"
    by (simp add: update_element_def)
  show ?thesis
    by (simp add: outside_click_def c update_element_twice classList_remove_twice)
qed

lemma outside_click_closed:
  "\<not> classList_contains ''active'' (elements p m) \<Longrightarrow> outside_click m t x p = p"
  by (simp add: outside_click_def update_element_same classList_remove_absent)

lemma outside_click_only_removes:
  "classList (elements (outside_click m t x p) n) = classList (elements p n) \<or>
   classList (elements (outside_click m t x p) n) = removeAll ''active'' (classList (elements p n))"
  by (simp add: outside_click_def elements_update_element classList_remove_def)

lemma keyboard_twice:
  "handleKeyboardNavigation mm mt k (handleKeyboardNavigation mm mt k p) =
     handleKeyboardNavigation mm mt k p"
  by (simp add: handleKeyboardNavigation_def Let_def update_element_def classList_contains_def
        classList_remove_def split: option.splits)

lemma keyboard_closed:
  "mm = Some m \<Longrightarrow> \<not> classList_contains ''active'' (elements p m) \<Longrightarrow>
   handleKeyboardNavigation mm mt k p = p"
  by (simp add: handleKeyboardNavigation_def)

lemma keyboard_only_removes:
  "classList (elements (handleKeyboardNavigation mm mt k p) n) = classList (elements p n) \<or>
   classList (elements (handleKeyboardNavigation mm mt k p) n) =
     removeAll ''active'' (classList (elements p n))"
  by (simp add: handleKeyboardNavigation_def Let_def update_element_def classList_remove_def
        split: option.splits)

subsection \<open>The lazy images\<close>

lemma on_entry_dataset: "dataset_src (elements (on_entry en p) n) = dataset_src (elements p n)"
  by (simp add: on_entry_def Let_def update_element_def classList_remove_def)

lemma on_entry_other: "target en \<noteq> i \<Longrightarrow> elements (on_entry en p) i = elements p i"
  by (simp add: on_entry_def Let_def update_element_def)

lemma on_entry_observed: "observed (on_entry en p) \<subseteq> observed p"
  by (auto simp add: on_entry_def Let_def update_element_def)

lemma on_entry_upgrades:
  "isIntersecting en \<Longrightarrow> target en = i \<Longrightarrow> dataset_src (elements p i) = Some s \<Longrightarrow> s \<noteq> [] \<Longrightarrow>
   upgraded i s (on_entry en p)"
  by (simp add: upgraded_def on_entry_def Let_def update_element_def classList_remove_def
        truthy_def)

lemma on_entry_keeps:
  "dataset_src (elements p i) = Some s \<Longrightarrow> upgraded i s p \<Longrightarrow> upgraded i s (on_entry en p)"
  by (auto simp add: upgraded_def on_entry_def Let_def update_element_def classList_remove_def
        truthy_def)

lemma callback_dataset:
  "dataset_src (elements (imageObserver_callback es p) n) = dataset_src (elements p n)"
  unfolding imageObserver_callback_def
  by (induction es arbitrary: p) (simp_all add: on_entry_dataset)

lemma callback_keeps:
  "dataset_src (elements p i) = Some s \<Longrightarrow> upgraded i s p \<Longrightarrow>
   upgraded i s (imageObserver_callback es p)"
  unfolding imageObserver_callback_def
  by (induction es arbitrary: p) (simp_all add: on_entry_keeps on_entry_dataset)

lemma callback_upgrades:
  "dataset_src (elements p i) = Some s \<Longrightarrow> s \<noteq> [] \<Longrightarrow>
   \<exists>en \<in> set es. isIntersecting en \<and> target en = i \<Longrightarrow>
   upgraded i s (imageObserver_callback es p)"
proof (induction es arbitrary: p)
  case Nil
  then show ?case by simp
next
  case (Cons e es)
  have d: "dataset_src (elements (on_entry e p) i) = Some s"
    using Cons.prems(1) by (simp add: on_entry_dataset)
  have unfold: "imageObserver_callback (e # es) p = imageObserver_callback es (on_entry e p)"
    by (simp add: imageObserver_callback_def)
  show ?case
  proof (cases "isIntersecting e \<and> target e = i")
    case True
    with Cons.prems have "upgraded i s (on_entry e p)"
      by (simp add: on_entry_upgrades)
    with d show ?thesis unfolding unfold by (rule callback_keeps)
  next
    case False
    with Cons.prems(3) have "\<exists>en \<in> set es. isIntersecting en \<and> target en = i"
      by auto
    with d Cons.prems(2) show ?thesis unfolding unfold by (rule Cons.IH)
  qed
qed

lemma callback_others:
  "\<forall>en \<in> set es. target en \<noteq> i \<Longrightarrow> elements (imageObserver_callback es p) i = elements p i"
  unfolding imageObserver_callback_def
  by (induction es arbitrary: p) (simp_all add: on_entry_other)

lemma callback_observed: "observed (imageObserver_callback es p) \<subseteq> observed p"
  unfolding imageObserver_callback_def
proof (induction es arbitrary: p)
  case Nil
  then show ?case by simp
next
  case (Cons e es)
  have "observed (foldl (\<lambda>q en. on_entry en q) (on_entry e p) es) \<subseteq> observed (on_entry e p)"
    by (rule Cons.IH)
  with on_entry_observed [of e p] show ?case by auto
qed

lemma notify_unobserved:
  assumes "i \<notin> observed p"
  shows "elements (observer_notify es p) i = elements p i \<and> i \<notin> observed (observer_notify es p)"
proof -
  have "\<forall>en \<in> set (filter (\<lambda>en. target en \<in> observed p) es). target en \<noteq> i"
    using assms by auto
  then have "elements (observer_notify es p) i = elements p i"
    unfolding observer_notify_def by (rule callback_others)
  moreover have "i \<notin> observed (observer_notify es p)"
    using assms callback_observed unfolding observer_notify_def by blast
  ultimately show ?thesis by simp
qed

lemma run_unobserved:
  "i \<notin> observed p \<Longrightarrow>
   elements (observer_run bs p) i = elements p i \<and> i \<notin> observed (observer_run bs p)"
  unfolding observer_run_def
proof (induction bs arbitrary: p)
  case Nil
  then show ?case by simp
next
  case (Cons b bs)
  from notify_unobserved [OF Cons.prems, of b]
  have n: "elements (observer_notify b p) i = elements p i" "i \<notin> observed (observer_notify b p)"
    by simp_all
  from Cons.IH [OF n(2)] n(1) show ?case by simp
qed

lemma notify_upgrades:
  assumes "i \<in> observed p" "dataset_src (elements p i) = Some s" "s \<noteq> []"
    "\<exists>en \<in> set es. isIntersecting en \<and> target en = i"
  shows "upgraded i s (observer_notify es p)"
proof -
  from assms(1,4) have "\<exists>en \<in> set (filter (\<lambda>en. target en \<in> observed p) es).
      isIntersecting en \<and> target en = i"
    by auto
  with assms(2,3) show ?thesis
    unfolding observer_notify_def by (rule callback_upgrades)
qed

lemma on_entry_inert:
  assumes "target en = i \<longrightarrow> \<not> isIntersecting en \<or> \<not> truthy (dataset_src (elements p i))"
  shows "elements (on_entry en p) i = elements p i \<and>
         (i \<in> observed p \<longrightarrow> i \<in> observed (on_entry en p))"
  using assms by (auto simp add: on_entry_def Let_def update_element_def)

lemma callback_quiet:
  assumes "\<forall>en \<in> set es. target en = i \<longrightarrow> \<not> isIntersecting en"
  shows "elements (imageObserver_callback es p) i = elements p i \<and>
         (i \<in> observed p \<longrightarrow> i \<in> observed (imageObserver_callback es p))"
  using assms unfolding imageObserver_callback_def
proof (induction es arbitrary: p)
  case Nil
  then show ?case by simp
next
  case (Cons e es)
  from Cons.prems have "target e = i \<longrightarrow> \<not> isIntersecting e \<or> \<not> truthy (dataset_src (elements p i))"
    by simp
  from on_entry_inert [OF this] Cons.IH [of "on_entry e p"] Cons.prems
  show ?case by simp
qed

lemma callback_falsy:
  assumes "\<not> truthy (dataset_src (elements p i))"
  shows "elements (imageObserver_callback es p) i = elements p i \<and>
         (i \<in> observed p \<longrightarrow> i \<in> observed (imageObserver_callback es p))"
  using assms unfolding imageObserver_callback_def
proof (induction es arbitrary: p)
  case Nil
  then show ?case by simp
next
  case (Cons e es)
  from Cons.prems have "target e = i \<longrightarrow> \<not> isIntersecting e \<or> \<not> truthy (dataset_src (elements p i))"
    by simp
  from on_entry_inert [OF this]
  have o: "elements (on_entry e p) i = elements p i"
    "i \<in> observed p \<longrightarrow> i \<in> observed (on_entry e p)"
    by simp_all
  from Cons.prems have "\<not> truthy (dataset_src (elements (on_entry e p) i))"
    by (simp add: on_entry_dataset)
  from Cons.IH [OF this] o show ?case by simp
qed

lemma notify_quiet:
  assumes "\<forall>en \<in> set es. target en = i \<longrightarrow> \<not> isIntersecting en"
  shows "elements (observer_notify es p) i = elements p i \<and>
         (i \<in> observed p \<longrightarrow> i \<in> observed (observer_notify es p))"
proof -
  from assms have "\<forall>en \<in> set (filter (\<lambda>en. target en \<in> observed p) es).
      target en = i \<longrightarrow> \<not> isIntersecting en"
    by simp
  then show ?thesis
    unfolding observer_notify_def by (rule callback_quiet)
qed

lemma run_falsy:
  "\<not> truthy (dataset_src (elements p i)) \<Longrightarrow>
   elements (observer_run batches p) i = elements p i \<and>
   (i \<in> observed p \<longrightarrow> i \<in> observed (observer_run batches p))"
  unfolding observer_run_def
proof (induction batches arbitrary: p)
  case Nil
  then show ?case by simp
next
  case (Cons b bs)
  from callback_falsy [OF Cons.prems, of "filter (\<lambda>en. target en \<in> observed p) b"]
  have n: "elements (observer_notify b p) i = elements p i"
    "i \<in> observed p \<longrightarrow> i \<in> observed (observer_notify b p)"
    by (simp_all add: observer_notify_def)
  from Cons.prems n(1) have "\<not> truthy (dataset_src (elements (observer_notify b p) i))"
    by simp
  from Cons.IH [OF this] n show ?case by simp
qed

lemma lazy_page_eval:
  "lazy_page = example_page\<lparr>observed := {7, 8}\<rparr>"
  by (auto simp add: lazy_page_def observe_lazy_images_def safeSelectAll_def try_catch_def
        example_page_def)

lemmas lazy_eval = lazy_page_eval observer_notify_def imageObserver_callback_def on_entry_def
  example_page_def plain_def truthy_def Let_def update_element_def classList_remove_def
  observer_run_def

section \<open>The claims\<close>

text \<open>
  C1 (as amended). For every limit and every function whose first call returns without
  calling the wrapper itself: of the calls of the throttled wrapper within a span shorter
  than the limit, the first alone calls the function, at the time of that call and with
  its context and arguments, whatever timers the host runs meanwhile; and once the limit
  has passed since the gate closed and the host has run the timer, the next call of the
  wrapper calls the function again.
\<close>

theorem throttle_burst:
  assumes "func c1 a1 w0 = Return w1"
    and "\<forall>tk \<in> set burst. before (t1 + limit) tk"
    and "0 < limit"
    and "t1 + limit \<le> t"
  shows "t_calls (throttle_run (Suc stack) func limit (Elapse t1 # Call c1 a1 # burst) w0) =
           [(t1, c1, a1)] \<and>
         (\<exists>rest. t_calls (throttle_run (Suc stack) func limit
                    (Elapse t1 # Call c1 a1 # burst @ [Elapse t, RunTimer, Call c a]) w0) =
                  [(t1, c1, a1), (t, c, a)] @ rest)"
proof -
  let ?step = "\<lambda>s tk. throttle_step (Suc stack) func limit tk s"
  let ?s1 = "throttle_run (Suc stack) func limit [Elapse t1, Call c1 a1] w0"
  have first: "closed_since (Suc 0) (t1 + limit) [(t1, c1, a1)] w1 ?s1"
    using assms(1,3) by (rule throttle_first)
  from first assms(2) have burst: "closed_since (Suc 0) (t1 + limit) [(t1, c1, a1)] w1
      (foldl ?step ?s1 burst)"
    by (rule throttle_burst_fold)
  have run1: "throttle_run (Suc stack) func limit (Elapse t1 # Call c1 a1 # burst) w0 =
      foldl ?step ?s1 burst"
    by (simp add: throttle_run_def)
  have run2: "throttle_run (Suc stack) func limit
      (Elapse t1 # Call c1 a1 # burst @ [Elapse t, RunTimer, Call c a]) w0 =
      foldl ?step (foldl ?step ?s1 burst) [Elapse t, RunTimer, Call c a]"
    by (simp add: throttle_run_def)
  from burst have one: "t_calls (foldl ?step ?s1 burst) = [(t1, c1, a1)]"
    by (simp add: closed_since_def)
  from throttle_reopened [OF burst assms(4), of stack func limit c a]
  obtain rest where "t_calls (foldl ?step (foldl ?step ?s1 burst) [Elapse t, RunTimer, Call c a]) =
      [(t1, c1, a1)] @ (t, c, a) # rest"
    by blast
  with one show ?thesis
    unfolding run1 run2 by simp
qed

theorem throttle_burst_witness:
  "t_calls (throttle_run (Suc 0) counting 16
      [Elapse 0, Call () ''a'', Elapse 5, Call () ''b'', RunTimer, Elapse 15, Call () ''c''] 0) =
     [(0, (), ''a'')] \<and>
   t_calls (throttle_run (Suc 0) counting 16
      [Elapse 0, Call () ''a'', Elapse 5, Call () ''b'', RunTimer, Elapse 15, Call () ''c'',
       Elapse 16, RunTimer, Call () ''d''] 0) =
     [(0, (), ''a''), (16, (), ''d'')]"
proof -
  have a: "counting () ''a'' 0 = Return (Suc 0)"
    by (simp add: counting_def)
  have b: "\<forall>tk \<in> set [Elapse 5, Call () ''b'', RunTimer, Elapse 15, Call () ''c''].
             before (0 + 16) tk"
    by simp
  have c: "(0::nat) < 16" and d: "(0::nat) + 16 \<le> 16"
    by simp_all
  from throttle_burst
         [where func = counting and ?c1.0 = "()" and ?a1.0 = "''a''" and ?w0.0 = 0
            and ?w1.0 = "Suc 0" and ?t1.0 = 0 and limit = 16 and stack = 0
            and burst = "[Elapse 5, Call () ''b'', RunTimer, Elapse 15, Call () ''c'']",
          OF a b c d]
  have 1: "t_calls (throttle_run (Suc 0) counting 16
      [Elapse 0, Call () ''a'', Elapse 5, Call () ''b'', RunTimer, Elapse 15, Call () ''c''] 0) =
     [(0, (), ''a'')]"
    by simp
  have 2: "t_calls (throttle_run (Suc 0) counting 16
      [Elapse 0, Call () ''a'', Elapse 5, Call () ''b'', RunTimer, Elapse 15, Call () ''c'',
       Elapse 16, RunTimer, Call () ''d''] 0) =
     [(0, (), ''a''), (16, (), ''d'')]"
    by (simp add: throttle_eval counting_def)
  from 1 2 show ?thesis by simp
qed

text \<open>
  C1 as stated fails in three ways. A function that throws leaves the gate open: the
  second call, 5 ms after the first with a limit of 16 ms, calls it again. A function
  that calls the wrapper finds the gate still open: one call of the wrapper calls it
  twice. And the gate reopens only when the host runs the timer: with the limit 0 the
  second call of the same task is dropped, and so is a call 20 ms after the first with a
  limit of 16 ms that comes before the host has run the timer.
\<close>

theorem throttle_once_counterexample:
  "t_calls (throttle_run 2 always_throws 16 [Call () ''a'', Elapse 5, Call () ''b''] 0) =
     [(0, (), ''a''), (5, (), ''b'')] \<and>
   t_calls (throttle_run 2 reentering 16 [Call () ''a''] 0) =
     [(0, (), ''a''), (0, (), ''again'')] \<and>
   t_calls (throttle_run 2 counting 0 [Call () ''a'', Call () ''b''] 0) = [(0, (), ''a'')] \<and>
   t_calls (throttle_run 2 counting 16 [Call () ''a'', Elapse 20, Call () ''b''] 0) =
     [(0, (), ''a'')]"
  by (simp add: throttle_eval always_throws_def reentering_def counting_def numeral_2_eq_2)

text \<open>
  C2. For every wait: after one or more calls of the debounced wrapper within a span
  shorter than the wait, the function has not been called before the wait has passed
  since the last call, and from then on it has been called exactly once, at that time,
  with the arguments of the last call.
\<close>

theorem debounce_burst:
  assumes "evs \<noteq> []" and "sorted (map fst evs)" and "fst (last evs) < fst (hd evs) + wait"
  shows "d_calls (debounce_run wait evs horizon) =
           (if fst (last evs) + wait \<le> horizon
            then [(fst (last evs) + wait, snd (last evs))] else [])"
proof -
  from assms(1) obtain t a es where evs: "evs = (t, a) # es"
    by (cases evs) auto
  have first: "armed (Suc 0) t wait a (debounce_at wait (t, a) debounce_init)"
    by (rule debounce_first)
  from assms(2) evs have so: "sorted (t # map fst es)" by simp
  have bd: "\<forall>e \<in> set es. fst e < t + wait"
  proof
    fix e assume "e \<in> set es"
    then have "e \<in> set evs" using evs by simp
    with assms(2) have "fst e \<le> fst (last evs)"
      by (rule sorted_le_last)
    with assms(3) evs show "fst e < t + wait" by simp
  qed
  from debounce_burst_fold [OF first so bd]
  obtain h' where "armed h' (fst (last evs)) wait (snd (last evs))
      (foldl (\<lambda>s ev. debounce_at wait ev s) (debounce_at wait (t, a) debounce_init) es)"
    using evs by auto
  from debounce_idle_armed [OF this] evs show ?thesis
    by (simp add: debounce_run_def)
qed

theorem debounce_burst_witness:
  "d_calls (debounce_run 100 [(0, ''a''), (30, ''b''), (99, ''c'')] 198) = [] \<and>
   d_calls (debounce_run 100 [(0, ''a''), (30, ''b''), (99, ''c'')] 199) = [(199, ''c'')]"
proof -
  have a: "[(0::nat, ''a''), (30, ''b''), (99, ''c'')] \<noteq> []"
    by simp
  have b: "sorted (map fst [(0::nat, ''a''), (30, ''b''), (99, ''c'')])"
    by simp
  have c: "fst (last [(0::nat, ''a''), (30, ''b''), (99, ''c'')]) <
             fst (hd [(0::nat, ''a''), (30, ''b''), (99, ''c'')]) + 100"
    by simp
  from debounce_burst [OF a b c, of 198] debounce_burst [OF a b c, of 199] show ?thesis
    by simp
qed

text \<open>
  C3 (as amended). For an observed image whose deferred source is a non-empty string
  \<open>s\<close>: the notification that reports it as intersecting sets its live source to \<open>s\<close>,
  removes the class "lazy" and unobserves it, and no later notification touches the
  image; a notification that reports it only as not intersecting leaves it as it is, and
  observed. An observed image whose deferred source is empty or absent is left as it is,
  and observed, by every notification.
\<close>

theorem lazy_image_upgraded_once:
  "(i \<in> observed p \<and> dataset_src (elements p i) = Some s \<and> s \<noteq> [] \<and>
    (\<exists>en \<in> set es. isIntersecting en \<and> target en = i) \<longrightarrow>
      src (elements (observer_notify es p) i) = Some s \<and>
      ''lazy'' \<notin> set (classList (elements (observer_notify es p) i)) \<and>
      i \<notin> observed (observer_notify es p) \<and>
      elements (observer_run later_batches (observer_notify es p)) i =
        elements (observer_notify es p) i \<and>
      i \<notin> observed (observer_run later_batches (observer_notify es p))) \<and>
   ((\<forall>en \<in> set es. target en = i \<longrightarrow> \<not> isIntersecting en) \<longrightarrow>
      elements (observer_notify es p) i = elements p i \<and>
      (i \<in> observed p \<longrightarrow> i \<in> observed (observer_notify es p))) \<and>
   (\<not> truthy (dataset_src (elements p i)) \<longrightarrow>
      elements (observer_run batches p) i = elements p i \<and>
      (i \<in> observed p \<longrightarrow> i \<in> observed (observer_run batches p)))"
proof (intro conjI impI)
  assume a: "i \<in> observed p \<and> dataset_src (elements p i) = Some s \<and> s \<noteq> [] \<and>
    (\<exists>en \<in> set es. isIntersecting en \<and> target en = i)"
  then have u: "upgraded i s (observer_notify es p)"
    by (intro notify_upgrades) simp_all
  then have n: "i \<notin> observed (observer_notify es p)"
    by (simp add: upgraded_def)
  from u show "src (elements (observer_notify es p) i) = Some s"
    and "''lazy'' \<notin> set (classList (elements (observer_notify es p) i))"
    by (simp_all add: upgraded_def)
  from n show "i \<notin> observed (observer_notify es p)" .
  from run_unobserved [OF n, of later_batches]
  show "elements (observer_run later_batches (observer_notify es p)) i =
          elements (observer_notify es p) i"
    and "i \<notin> observed (observer_run later_batches (observer_notify es p))"
    by simp_all
next
  assume q: "\<forall>en \<in> set es. target en = i \<longrightarrow> \<not> isIntersecting en"
  from notify_quiet [OF q, of p]
  show "elements (observer_notify es p) i = elements p i"
    and "i \<in> observed p \<Longrightarrow> i \<in> observed (observer_notify es p)"
    by simp_all
next
  assume f: "\<not> truthy (dataset_src (elements p i))"
  from run_falsy [OF f, of batches]
  show "elements (observer_run batches p) i = elements p i"
    and "i \<in> observed p \<Longrightarrow> i \<in> observed (observer_run batches p)"
    by simp_all
qed

theorem lazy_image_upgraded_once_witness:
  "src (elements (observer_notify [\<lparr>isIntersecting = True, target = 7\<rparr>] lazy_page) 7) =
     Some ''photo.jpg'' \<and>
   ''lazy'' \<notin> set (classList
      (elements (observer_notify [\<lparr>isIntersecting = True, target = 7\<rparr>] lazy_page) 7)) \<and>
   7 \<notin> observed (observer_notify [\<lparr>isIntersecting = True, target = 7\<rparr>] lazy_page) \<and>
   7 \<notin> observed (observer_run [[\<lparr>isIntersecting = True, target = 7\<rparr>]]
      (observer_notify [\<lparr>isIntersecting = True, target = 7\<rparr>] lazy_page)) \<and>
   elements (observer_notify [\<lparr>isIntersecting = False, target = 7\<rparr>] lazy_page) 7 =
     elements lazy_page 7 \<and>
   7 \<in> observed (observer_notify [\<lparr>isIntersecting = False, target = 7\<rparr>] lazy_page) \<and>
   elements (observer_run [[\<lparr>isIntersecting = True, target = 8\<rparr>]] lazy_page) 8 =
     elements lazy_page 8 \<and>
   8 \<in> observed (observer_run [[\<lparr>isIntersecting = True, target = 8\<rparr>]] lazy_page)"
proof -
  have a: "7 \<in> observed lazy_page \<and> dataset_src (elements lazy_page 7) = Some ''photo.jpg'' \<and>
      ''photo.jpg'' \<noteq> [] \<and>
      (\<exists>en \<in> set [\<lparr>isIntersecting = True, target = 7\<rparr>]. isIntersecting en \<and> target en = 7)"
    by (simp add: lazy_page_eval example_page_def plain_def)
  have b: "\<forall>en \<in> set [\<lparr>isIntersecting = False, target = 7\<rparr>].
      target en = 7 \<longrightarrow> \<not> isIntersecting en"
    by simp
  have c: "\<not> truthy (dataset_src (elements lazy_page 8))" and d: "8 \<in> observed lazy_page"
    by (simp_all add: lazy_page_eval example_page_def plain_def truthy_def)
  from lazy_image_upgraded_once
         [where i = 7 and p = lazy_page and s = "''photo.jpg''"
            and es = "[\<lparr>isIntersecting = True, target = 7\<rparr>]"
            and later_batches = "[[\<lparr>isIntersecting = True, target = 7\<rparr>]]"] a
  have 1: "src (elements (observer_notify [\<lparr>isIntersecting = True, target = 7\<rparr>] lazy_page) 7) =
     Some ''photo.jpg'' \<and>
   ''lazy'' \<notin> set (classList
      (elements (observer_notify [\<lparr>isIntersecting = True, target = 7\<rparr>] lazy_page) 7)) \<and>
   7 \<notin> observed (observer_notify [\<lparr>isIntersecting = True, target = 7\<rparr>] lazy_page) \<and>
   7 \<notin> observed (observer_run [[\<lparr>isIntersecting = True, target = 7\<rparr>]]
      (observer_notify [\<lparr>isIntersecting = True, target = 7\<rparr>] lazy_page))"
    by blast
  from lazy_image_upgraded_once
         [where i = 7 and p = lazy_page and es = "[\<lparr>isIntersecting = False, target = 7\<rparr>]"] a b
  have 2: "elements (observer_notify [\<lparr>isIntersecting = False, target = 7\<rparr>] lazy_page) 7 =
     elements lazy_page 7 \<and>
   7 \<in> observed (observer_notify [\<lparr>isIntersecting = False, target = 7\<rparr>] lazy_page)"
    by blast
  from lazy_image_upgraded_once
         [where i = 8 and p = lazy_page
            and batches = "[[\<lparr>isIntersecting = True, target = 8\<rparr>]]"] c d
  have 3: "elements (observer_run [[\<lparr>isIntersecting = True, target = 8\<rparr>]] lazy_page) 8 =
     elements lazy_page 8 \<and>
   8 \<in> observed (observer_run [[\<lparr>isIntersecting = True, target = 8\<rparr>]] lazy_page)"
    by blast
  from 1 2 3 show ?thesis by blast
qed

text \<open>
  C3 as stated fails for the image 8 of the example page: it carries the deferred-source
  attribute, with the empty string for its value, and the bootstrap observes it; reported
  as intersecting, it keeps its class "lazy", gets no source and stays observed.
\<close>

theorem lazy_image_empty_source_counterexample:
  "8 \<in> observed lazy_page \<and>
   dataset_src (elements lazy_page 8) = Some [] \<and>
   src (elements (observer_notify [\<lparr>isIntersecting = True, target = 8\<rparr>] lazy_page) 8) = None \<and>
   ''lazy'' \<in> set (classList
      (elements (observer_notify [\<lparr>isIntersecting = True, target = 8\<rparr>] lazy_page) 8)) \<and>
   8 \<in> observed (observer_notify [\<lparr>isIntersecting = True, target = 8\<rparr>] lazy_page)"
  by (simp add: lazy_eval)

text \<open>
  C4 (as amended). For every invocation of the throttled scroll handler that finds the
  gate open, with the page scrolled to the offset \<open>y\<close>: the header gets the elevated
  style when \<open>y > 100\<close> and the base style otherwise, and the button has the class
  "visible" exactly when \<open>y > 500\<close>; so the offset 0 gives the base header and the hidden
  button, 150 the elevated header, 600 the visible button. An invocation that finds the
  gate closed changes no element, whatever the offset.
\<close>

theorem handleScroll_thresholds:
  "(\<not> inThrottle s \<longrightarrow>
      style (elements (world (scroll_event (Some h) scrollTopBtn (Suc stack) y s)) h) =
        (if y > 100 then elevated (style (elements (world s) h))
         else base (style (elements (world s) h))) \<and>
      (''visible'' \<in> set (classList
          (elements (world (scroll_event header (Some b) (Suc stack) y s)) b))) = (y > 500) \<and>
      style (elements (world (scroll_event (Some h) scrollTopBtn (Suc stack) 0 s)) h) =
        base (style (elements (world s) h)) \<and>
      ''visible'' \<notin> set (classList
          (elements (world (scroll_event header (Some b) (Suc stack) 0 s)) b)) \<and>
      style (elements (world (scroll_event (Some h) scrollTopBtn (Suc stack) 150 s)) h) =
        elevated (style (elements (world s) h)) \<and>
      ''visible'' \<in> set (classList
          (elements (world (scroll_event header (Some b) (Suc stack) 600 s)) b))) \<and>
   (inThrottle s \<longrightarrow>
      elements (world (scroll_event header scrollTopBtn (Suc stack) y s)) = elements (world s))"
proof (intro conjI impI)
  assume c: "inThrottle s"
  show "elements (world (scroll_event header scrollTopBtn (Suc stack) y s)) = elements (world s)"
    by (simp add: scroll_event_closed [OF c] scroll_to_def)
qed (simp_all add: scroll_event_header scroll_event_button)

theorem handleScroll_thresholds_witness:
  "style (elements (world (scrolled [Scroll 0])) 4) = base (style plain) \<and>
   ''visible'' \<notin> set (classList (elements (world (scrolled [Scroll 0])) 5)) \<and>
   style (elements (world (scrolled [Scroll 0, Wait 16, Timer, Scroll 150])) 4) =
     elevated (style plain) \<and>
   ''visible'' \<in> set (classList (elements (world
      (scrolled [Scroll 0, Wait 16, Timer, Scroll 150, Wait 32, Timer, Scroll 600])) 5)) \<and>
   style (elements (world (scrolled
      [Scroll 0, Wait 16, Timer, Scroll 150, Wait 32, Timer, Scroll 600, Wait 48, Timer,
       Scroll 0])) 4) = base (style plain) \<and>
   ''visible'' \<notin> set (classList (elements (world (scrolled
      [Scroll 0, Wait 16, Timer, Scroll 150, Wait 32, Timer, Scroll 600, Wait 48, Timer,
       Scroll 0])) 5)) \<and>
   elements (world (scrolled [Scroll 150, Wait 5, Timer, Scroll 0])) =
     elements (world (scrolled [Scroll 150, Wait 5, Timer]))"
proof -
  let ?ev = "scroll_event (Some 4) (Some 5) (Suc 0)"
  let ?s0 = "scrolled []"
  let ?s1 = "scrolled [Scroll 0, Wait 16, Timer]"
  let ?s2 = "scrolled [Scroll 0, Wait 16, Timer, Scroll 150, Wait 32, Timer]"
  let ?s3 = "scrolled [Scroll 150, Wait 5, Timer]"
  let ?s4 = "scrolled [Scroll 0, Wait 16, Timer, Scroll 150, Wait 32, Timer, Scroll 600,
    Wait 48, Timer]"
  have e0: "scrolled [Scroll 0] = ?ev 0 ?s0"
    and e1: "scrolled [Scroll 0, Wait 16, Timer, Scroll 150] = ?ev 150 ?s1"
    and e2: "scrolled [Scroll 0, Wait 16, Timer, Scroll 150, Wait 32, Timer, Scroll 600] =
               ?ev 600 ?s2"
    and e3: "scrolled [Scroll 150, Wait 5, Timer, Scroll 0] = ?ev 0 ?s3"
    and e4: "scrolled [Scroll 0, Wait 16, Timer, Scroll 150, Wait 32, Timer, Scroll 600,
               Wait 48, Timer, Scroll 0] = ?ev 0 ?s4"
    by (simp_all add: scrolled_def scroll_step_def)
  have st: "\<And>a b. elevated a = elevated b" "\<And>a b. base a = base b"
    by (simp_all add: elevated_def base_def)
  have g0: "\<not> inThrottle ?s0" and g1: "\<not> inThrottle ?s1" and g2: "\<not> inThrottle ?s2"
    and g3: "inThrottle ?s3" and g4: "\<not> inThrottle ?s4"
    by (simp_all add: scrolled_run)
  note thr = handleScroll_thresholds
      [where h = 4 and scrollTopBtn = "Some 5" and stack = 0 and header = "Some 4" and b = 5]
  from thr [of ?s0 0] g0 thr [of ?s1 150] g1 thr [of ?s2 600] g2 thr [of ?s3 0] g3
    thr [of ?s4 0] g4
  show ?thesis
    unfolding e0 e1 e2 e3 e4 using st by simp
qed

text \<open>
  C4 as stated fails for a scroll event that the throttle drops: the page is scrolled to
  150 at time 0 and back to 0 at time 5, within the 16 ms of the throttle, and the header
  keeps the elevated style at offset 0.
\<close>

theorem handleScroll_dropped_counterexample:
  "scroll_offset (world (scrolled [Scroll 150, Wait 5, Timer, Scroll 0])) = 0 \<and>
   style (elements (world (scrolled [Scroll 150, Wait 5, Timer, Scroll 0])) 4) =
     elevated (style plain) \<and>
   style (elements (world (scrolled [Scroll 150, Wait 5, Timer, Scroll 0])) 4) \<noteq>
     base (style plain)"
  by (simp add: scrolled_run)

text \<open>
  C5. A click on an anchor link always suppresses the default navigation. The href is
  resolved through \<open>safeSelect\<close>: when the query finds a node, that node is scrolled into
  view smoothly, aligned to the top (\<open>block: "start"\<close>); when it finds none, or the href
  is no valid selector, nothing is scrolled and the page is as before, but for the warning
  \<open>safeSelect\<close> logs for an invalid selector.
\<close>

theorem anchor_click_scrolls:
  "fst (snd (anchor_click a e p)) = e\<lparr>defaultPrevented := True\<rparr> \<and>
   (\<forall>h n. href (elements p a) = Some h \<and> querySelector p h = Returns (Some n) \<longrightarrow>
      anchor_click a e p =
        (Returns (), e\<lparr>defaultPrevented := True\<rparr>,
         p\<lparr>scroll_calls := scroll_calls p @ [ScrollIntoView n ''smooth'' ''start'']\<rparr>)) \<and>
   (\<forall>h. href (elements p a) = Some h \<and> querySelector p h = Returns None \<longrightarrow>
      anchor_click a e p = (Returns (), e\<lparr>defaultPrevented := True\<rparr>, p)) \<and>
   (\<forall>h x. href (elements p a) = Some h \<and> querySelector p h = Throws x \<longrightarrow>
      anchor_click a e p =
        (Returns (), e\<lparr>defaultPrevented := True\<rparr>,
         p\<lparr>console := console p @ [''Invalid selector: '' @ h]\<rparr>))"
proof -
  obtain c where c: "querySelector p (to_DOMString (href (elements p a))) = c"
    by simp
  show ?thesis
  proof (cases c)
    case (Returns r)
    with c show ?thesis
      by (cases r)
         (auto simp add: anchor_click_def safeSelect_def try_catch_def to_DOMString_def Let_def)
  next
    case (Throws x)
    with c show ?thesis
      by (auto simp add: anchor_click_def safeSelect_def try_catch_def to_DOMString_def Let_def
            console_warn_def)
  qed
qed

theorem anchor_click_scrolls_witness:
  "href (elements example_page 6) = Some ''#section2'' \<and>
   querySelector example_page ''#section2'' = Returns (Some 2) \<and>
   anchor_click 6 \<lparr>defaultPrevented = False\<rparr> example_page =
     (Returns (), \<lparr>defaultPrevented = True\<rparr>,
      example_page\<lparr>scroll_calls := [ScrollIntoView 2 ''smooth'' ''start'']\<rparr>)"
proof -
  have h: "href (elements example_page 6) = Some ''#section2'' \<and>
           querySelector example_page ''#section2'' = Returns (Some 2)"
    by (simp add: example_page_def plain_def)
  have s: "scroll_calls example_page = []"
    by (simp add: example_page_def)
  from anchor_click_scrolls [of 6 "\<lparr>defaultPrevented = False\<rparr>" example_page] h
  have "anchor_click 6 \<lparr>defaultPrevented = False\<rparr> example_page =
     (Returns (), \<lparr>defaultPrevented = False\<rparr>\<lparr>defaultPrevented := True\<rparr>,
      example_page\<lparr>scroll_calls := scroll_calls example_page @
        [ScrollIntoView 2 ''smooth'' ''start'']\<rparr>)"
    by blast
  with h s show ?thesis by simp
qed

text \<open>
  C6. \<open>safeSelect\<close> and \<open>safeSelectAll\<close> never throw. When the query throws (the
  selector is invalid) they log the warning and return null and the empty collection;
  otherwise they return what the query returned and log nothing.
\<close>

theorem safeSelect_never_throws:
  "(\<exists>r p'. safeSelect s p = (Returns r, p')) \<and>
   (\<exists>ns p'. safeSelectAll s p = (Returns ns, p')) \<and>
   (\<forall>e. querySelector p s = Throws e \<longrightarrow>
      safeSelect s p = (Returns None, p\<lparr>console := console p @ [''Invalid selector: '' @ s]\<rparr>)) \<and>
   (\<forall>e. querySelectorAll p s = Throws e \<longrightarrow>
      safeSelectAll s p = (Returns [], p\<lparr>console := console p @ [''Invalid selector: '' @ s]\<rparr>)) \<and>
   (\<forall>r. querySelector p s = Returns r \<longrightarrow> safeSelect s p = (Returns r, p)) \<and>
   (\<forall>ns. querySelectorAll p s = Returns ns \<longrightarrow> safeSelectAll s p = (Returns ns, p))"
  by (cases "querySelector p s"; cases "querySelectorAll p s")
     (simp_all add: safeSelect_def safeSelectAll_def try_catch_def console_warn_def)

theorem safeSelect_never_throws_witness:
  "querySelector example_page ''#'' = Throws SyntaxError \<and>
   querySelectorAll example_page ''#'' = Throws SyntaxError \<and>
   safeSelect ''#'' example_page =
     (Returns None, example_page\<lparr>console := [''Invalid selector: #'']\<rparr>) \<and>
   safeSelectAll ''#'' example_page =
     (Returns [], example_page\<lparr>console := [''Invalid selector: #'']\<rparr>)"
proof -
  have h: "querySelector example_page ''#'' = Throws SyntaxError \<and>
           querySelectorAll example_page ''#'' = Throws SyntaxError"
    by (simp add: example_page_def)
  have c: "console example_page = []"
    by (simp add: example_page_def)
  from safeSelect_never_throws [of "''#''" example_page] h
  have "safeSelect ''#'' example_page =
          (Returns None,
           example_page\<lparr>console := console example_page @ [''Invalid selector: '' @ ''#'']\<rparr>) \<and>
        safeSelectAll ''#'' example_page =
          (Returns [],
           example_page\<lparr>console := console example_page @ [''Invalid selector: '' @ ''#'']\<rparr>)"
    by blast
  with h c show ?thesis by simp
qed

text \<open>
  C7. \<open>getScreenSize\<close> maps the width of the window to its bucket: below 576 "xs", below
  768 "sm", below 992 "md", below 1200 "lg", and "xl" from 1200 on; so 575, 767, 991, 1199
  and 1200 give "xs", "sm", "md", "lg" and "xl".
\<close>

theorem getScreenSize_buckets:
  "(innerWidth p < 576 \<longrightarrow> getScreenSize p = ''xs'') \<and>
   (576 \<le> innerWidth p \<and> innerWidth p < 768 \<longrightarrow> getScreenSize p = ''sm'') \<and>
   (768 \<le> innerWidth p \<and> innerWidth p < 992 \<longrightarrow> getScreenSize p = ''md'') \<and>
   (992 \<le> innerWidth p \<and> innerWidth p < 1200 \<longrightarrow> getScreenSize p = ''lg'') \<and>
   (1200 \<le> innerWidth p \<longrightarrow> getScreenSize p = ''xl'') \<and>
   getScreenSize (p\<lparr>innerWidth := 575\<rparr>) = ''xs'' \<and>
   getScreenSize (p\<lparr>innerWidth := 767\<rparr>) = ''sm'' \<and>
   getScreenSize (p\<lparr>innerWidth := 991\<rparr>) = ''md'' \<and>
   getScreenSize (p\<lparr>innerWidth := 1199\<rparr>) = ''lg'' \<and>
   getScreenSize (p\<lparr>innerWidth := 1200\<rparr>) = ''xl''"
  by (simp add: getScreenSize_def)

theorem getScreenSize_buckets_witness:
  "768 \<le> innerWidth example_page \<and> innerWidth example_page < 992 \<and>
   getScreenSize example_page = ''md''"
proof -
  have h: "768 \<le> innerWidth example_page \<and> innerWidth example_page < 992"
    by (simp add: example_page_def)
  with getScreenSize_buckets [of example_page] show ?thesis by blast
qed

text \<open>
  C8. \<open>closeMobileMenu\<close> is idempotent on the elements of the page, and on a menu
  without the class "active" it changes nothing. The outside-click handler and the
  keyboard handler are idempotent too and leave a closed menu as it is. After any of the
  three, the class list of every node is what it was, or what it was without "active".
\<close>

theorem closeMobileMenu_idempotent:
  "elements (snd (closeMobileMenu (snd (closeMobileMenu p)))) =
     elements (snd (closeMobileMenu p)) \<and>
   (\<forall>m. querySelector p ''#mobileMenu'' = Returns (Some m) \<and>
        \<not> classList_contains ''active'' (elements p m) \<longrightarrow> snd (closeMobileMenu p) = p) \<and>
   outside_click mobileMenu menuToggle x (outside_click mobileMenu menuToggle x p) =
     outside_click mobileMenu menuToggle x p \<and>
   (\<not> classList_contains ''active'' (elements p mobileMenu) \<longrightarrow>
      outside_click mobileMenu menuToggle x p = p) \<and>
   handleKeyboardNavigation mm mt k (handleKeyboardNavigation mm mt k p) =
     handleKeyboardNavigation mm mt k p \<and>
   (\<forall>m. mm = Some m \<and> \<not> classList_contains ''active'' (elements p m) \<longrightarrow>
      handleKeyboardNavigation mm mt k p = p) \<and>
   (\<forall>n. classList (elements (snd (closeMobileMenu p)) n) = classList (elements p n) \<or>
        classList (elements (snd (closeMobileMenu p)) n) =
          removeAll ''active'' (classList (elements p n))) \<and>
   (\<forall>n. classList (elements (outside_click mobileMenu menuToggle x p) n) =
          classList (elements p n) \<or>
        classList (elements (outside_click mobileMenu menuToggle x p) n) =
          removeAll ''active'' (classList (elements p n))) \<and>
   (\<forall>n. classList (elements (handleKeyboardNavigation mm mt k p) n) = classList (elements p n) \<or>
        classList (elements (handleKeyboardNavigation mm mt k p) n) =
          removeAll ''active'' (classList (elements p n)))"
  using closeMobileMenu_twice [of p] closeMobileMenu_closed [of p]
    outside_click_twice [of mobileMenu menuToggle x p]
    outside_click_closed [of p mobileMenu menuToggle x]
    keyboard_twice [of mm mt k p] keyboard_closed [of mm _ p mt k]
    closeMobileMenu_only_removes [of p] outside_click_only_removes [of mobileMenu menuToggle x p]
    keyboard_only_removes [of mm mt k p]
  by blast

theorem closeMobileMenu_idempotent_witness:
  "snd (closeMobileMenu example_page) = closed_page \<and>
   classList (elements example_page 1) = [''menu'', ''active''] \<and>
   classList (elements closed_page 1) = [''menu''] \<and>
   querySelector closed_page ''#mobileMenu'' = Returns (Some 1) \<and>
   \<not> classList_contains ''active'' (elements closed_page 1) \<and>
   snd (closeMobileMenu closed_page) = closed_page \<and>
   outside_click 1 3 2 closed_page = closed_page \<and>
   handleKeyboardNavigation (Some 1) (Some 3) ''Escape'' closed_page = closed_page"
proof -
  have h: "querySelector closed_page ''#mobileMenu'' = Returns (Some 1) \<and>
           \<not> classList_contains ''active'' (elements closed_page 1)"
    by (simp add: closed_page_def example_page_def plain_def update_element_def
          classList_remove_def classList_contains_def)
  have c: "snd (closeMobileMenu example_page) = closed_page \<and>
           classList (elements example_page 1) = [''menu'', ''active''] \<and>
           classList (elements closed_page 1) = [''menu'']"
    by (simp add: closeMobileMenu_cases closed_page_def example_page_def plain_def
          update_element_def classList_remove_def)
  from h closeMobileMenu_idempotent
         [where p = closed_page and mobileMenu = 1 and menuToggle = 3 and x = 2
            and mm = "Some 1" and mt = "Some 3" and k = "''Escape''"]
  have "snd (closeMobileMenu closed_page) = closed_page \<and>
        outside_click 1 3 2 closed_page = closed_page \<and>
        handleKeyboardNavigation (Some 1) (Some 3) ''Escape'' closed_page = closed_page"
    by blast
  with h c show ?thesis by simp
qed

text \<open>
  C9. Where the parent chain of the element ends (it is found within some number \<open>n\<close> of
  steps, so it is finite and has no cycle), the shim returns: its result is the first node
  of the chain, from the element upwards, that matches the selector, and null when no
  node of the chain matches.
\<close>

theorem closest_walks_parent_chain:
  "parent_chain n tree el = Some chain \<Longrightarrow>
   closest tree matches s el = Some (find (\<lambda>x. matches x s) chain)"
proof (induction n arbitrary: el chain)
  case 0
  then show ?case by simp
next
  case (Suc n)
  show ?case
  proof (cases "step_up tree el")
    case None
    with Suc.prems have "chain = [el]" by simp
    with None show ?thesis by (subst closest.simps) simp
  next
    case (Some p)
    show ?thesis
    proof (cases "nodeType (tree p) = 1")
      case False
      with Some Suc.prems have "chain = [el]" by simp
      with Some False show ?thesis by (subst closest.simps) simp
    next
      case True
      with Some Suc.prems obtain rest where
        rest: "parent_chain n tree p = Some rest" and chain: "chain = el # rest"
        by auto
      from Suc.IH [OF rest]
      have "closest tree matches s p = Some (find (\<lambda>x. matches x s) rest)" .
      with Some True chain show ?thesis by (subst closest.simps) simp
    qed
  qed
qed

theorem closest_walks_parent_chain_witness:
  "parent_chain 4 example_tree 3 = Some [3, 2, 1] \<and>
   closest example_tree example_matches ''.card'' 3 = Some (Some 2) \<and>
   closest example_tree example_matches ''.none'' 3 = Some None"
proof -
  have h: "parent_chain 4 example_tree 3 = Some [3, 2, 1]"
    by (simp add: eval_nat_numeral example_tree_def step_up_def)
  from closest_walks_parent_chain [OF h, of example_matches "''.card''"]
    closest_walks_parent_chain [OF h, of example_matches "''.none''"] h
  show ?thesis by (simp add: example_matches_def)
qed

text \<open>
  C10 (as amended). \<open>scrollToTop\<close> lets no exception of the smooth scroll call escape:
  where the host performs that call, the smooth scroll to the top is what happens; where
  it throws, \<open>scrollToTop\<close> does what the fallback call \<open>window.scrollTo(0, 0)\<close> does,
  which is the scroll to (0, 0) at once where the host performs it, and the exception of
  the fallback call, escaping to the caller, where the host throws again.
\<close>

theorem scrollToTop_falls_back:
  "(scrollTo_host p (ScrollOptions 0 ''smooth'') = Returns () \<longrightarrow>
      scrollToTop p =
        (Returns (), p\<lparr>scroll_calls := scroll_calls p @ [ScrollTo (ScrollOptions 0 ''smooth'')]\<rparr>)) \<and>
   (\<forall>e. scrollTo_host p (ScrollOptions 0 ''smooth'') = Throws e \<longrightarrow>
      scrollToTop p = window_scrollTo (ScrollXY 0 0) p) \<and>
   (\<forall>e. scrollTo_host p (ScrollOptions 0 ''smooth'') = Throws e \<and>
        scrollTo_host p (ScrollXY 0 0) = Returns () \<longrightarrow>
      scrollToTop p = (Returns (), p\<lparr>scroll_calls := scroll_calls p @ [ScrollTo (ScrollXY 0 0)]\<rparr>)) \<and>
   (\<forall>e e'. scrollTo_host p (ScrollOptions 0 ''smooth'') = Throws e \<and>
        scrollTo_host p (ScrollXY 0 0) = Throws e' \<longrightarrow>
      scrollToTop p = (Throws e', p))"
  by (cases "scrollTo_host p (ScrollOptions 0 ''smooth'')"; cases "scrollTo_host p (ScrollXY 0 0)")
     (simp_all add: scrollToTop_def try_catch_def window_scrollTo_def)

theorem scrollToTop_falls_back_witness:
  "scrollTo_host example_page (ScrollOptions 0 ''smooth'') = Throws TypeError \<and>
   scrollTo_host example_page (ScrollXY 0 0) = Returns () \<and>
   scrollToTop example_page =
     (Returns (), example_page\<lparr>scroll_calls := [ScrollTo (ScrollXY 0 0)]\<rparr>) \<and>
   scrollTo_host broken_page (ScrollXY 0 0) = Throws TypeError \<and>
   scrollToTop broken_page = (Throws TypeError, broken_page)"
proof -
  have h: "scrollTo_host example_page (ScrollOptions 0 ''smooth'') = Throws TypeError \<and>
           scrollTo_host example_page (ScrollXY 0 0) = Returns ()"
    by (simp add: example_page_def)
  have b: "scrollTo_host broken_page (ScrollOptions 0 ''smooth'') = Throws TypeError \<and>
           scrollTo_host broken_page (ScrollXY 0 0) = Throws TypeError"
    by (simp add: broken_page_def)
  have s: "scroll_calls example_page = []"
    by (simp add: example_page_def)
  from scrollToTop_falls_back [of example_page] h
  have 1: "scrollToTop example_page =
      (Returns (), example_page\<lparr>scroll_calls := scroll_calls example_page @ [ScrollTo (ScrollXY 0 0)]\<rparr>)"
    by blast
  from scrollToTop_falls_back [of broken_page] b
  have 2: "scrollToTop broken_page = (Throws TypeError, broken_page)"
    by blast
  from 1 2 h b s show ?thesis by simp
qed

text \<open>
  C10 as stated fails in a host whose \<open>window.scrollTo\<close> throws on every call: the
  fallback call stands unguarded in the catch block, and its exception leaves
  \<open>scrollToTop\<close>.
\<close>

theorem scrollToTop_throws_counterexample:
  "scrollToTop broken_page = (Throws TypeError, broken_page)"
  by (simp add: scrollToTop_def try_catch_def window_scrollTo_def broken_page_def)

end
